theory Spec2Isabelle
  imports Main "HOL-Library.Word" "HOL-Library.Multiset"
begin

unbundle bit_operations_syntax

section \<open>Data model of cmd/pingdisco/main.go\<close>

text \<open>
  Go's \<open>net.IP\<close> and \<open>net.IPMask\<close> are byte slices. A nil slice and an empty slice are
  both the empty list: the program only ever asks for their length.
\<close>

type_synonym byte = "8 word"
type_synonym IP = "byte list"
type_synonym IPMask = "byte list"

record IPNet =
  IP :: IP
  Mask :: IPMask

record Device =
  IP :: IP
  Online :: bool
  Hostname :: string

text \<open>
  Run-time panics of Go that the program can raise: an index out of range
  (\<open>ip[3]\<close>, \<open>hostname[len(hostname)-1]\<close>) and a method that reads a field through a
  nil pointer.
\<close>

datatype panic = IndexOutOfRange | NilPointerDereference

section \<open>The parts of Go's net package that scanSubnet calls\<close>

text \<open>
  These functions belong to Go's standard library (package net, file ip.go); they are
  written here after that library, for slices of every length.
\<close>

definition IPv4len :: nat where
  "IPv4len = 4"

definition IPv6len :: nat where
  "IPv6len = 16"

definition v4InV6Prefix :: "byte list" where
  "v4InV6Prefix = [0, 0, 0, 0, 0, 0, 0, 0, 0, 0, 0xff, 0xff]"

definition isZeros :: "byte list \<Rightarrow> bool" where
  "isZeros p = list_all (\<lambda>b. b = 0) p"

definition allFF :: "byte list \<Rightarrow> bool" where
  "allFF b = list_all (\<lambda>c. c = 0xff) b"

text \<open>\<open>ip.To4()\<close>: the 4-byte form of an IPv4 address, \<open>None\<close> for Go's nil.\<close>

definition To4 :: "IP \<Rightarrow> IP option" where
  "To4 ip =
     (if length ip = IPv4len then Some ip
      else if length ip = IPv6len \<and> isZeros (take 10 ip) \<and> ip ! 10 = 0xff \<and> ip ! 11 = 0xff
        then Some (take 4 (drop 12 ip))
      else None)"

text \<open>\<open>ip.Mask(mask)\<close>: a fresh slice, nil when the lengths do not fit.\<close>

definition IP_Mask :: "IP \<Rightarrow> IPMask \<Rightarrow> IP" where
  "IP_Mask ip msk =
     (let mask1 = (if length msk = IPv6len \<and> length ip = IPv4len \<and> allFF (take 12 msk)
                   then drop 12 msk else msk);
          ip1 = (if length mask1 = IPv4len \<and> length ip = IPv6len \<and> take 12 ip = v4InV6Prefix
                 then drop 12 ip else ip)
      in if length ip1 \<noteq> length mask1 then []
         else map (\<lambda>i. ip1 ! i AND mask1 ! i) [0..<length ip1])"

definition networkNumberAndMask :: "IPNet \<Rightarrow> IP \<times> IPMask" where
  "networkNumberAndMask n =
     (let ip = (case To4 (IPNet.IP n) of Some p \<Rightarrow> p | None \<Rightarrow> IPNet.IP n)
      in if To4 (IPNet.IP n) = None \<and> length ip \<noteq> IPv6len then ([], [])
         else if length (Mask n) = IPv4len then
           (if length ip \<noteq> IPv4len then ([], []) else (ip, Mask n))
         else if length (Mask n) = IPv6len then
           (if length ip = IPv4len then (ip, drop 12 (Mask n)) else (ip, Mask n))
         else ([], []))"

text \<open>\<open>n.Contains(ip)\<close>.\<close>

definition Contains :: "IPNet \<Rightarrow> IP \<Rightarrow> bool" where
  "Contains n ip =
     (case networkNumberAndMask n of (nn, m) \<Rightarrow>
        (let ip1 = (case To4 ip of Some x \<Rightarrow> x | None \<Rightarrow> ip);
             l = length ip1
         in if l \<noteq> length nn then False
            else list_all (\<lambda>i. nn ! i AND m ! i = ip1 ! i AND m ! i) [0..<l]))"

text \<open>
  \<open>ip.String()\<close>. The decimal and hexadecimal digits are those of Go's \<open>uitoa\<close> and
  \<open>hexString\<close>. A 16-byte address that is not an IPv4 address is printed by Go in the
  IPv6 text form, which is outside this model (the program scans only interfaces whose
  address has a 4-byte form); the model prints it like a slice of a wrong length.
\<close>

function uitoa :: "nat \<Rightarrow> string" where
  "uitoa v = (if v < 10 then [''0123456789'' ! v]
              else uitoa (v div 10) @ [''0123456789'' ! (v mod 10)])"
  by pat_completeness auto
termination
  by (relation "measure id") auto

declare uitoa.simps [simp del]

definition hexString :: "byte list \<Rightarrow> string" where
  "hexString b =
     concat (map (\<lambda>c. [''0123456789abcdef'' ! (unat c div 16),
                        ''0123456789abcdef'' ! (unat c mod 16)]) b)"

definition IP_String :: "IP \<Rightarrow> string" where
  "IP_String ip =
     (if length ip = 0 then ''<nil>''
      else case To4 ip of
        Some p4 \<Rightarrow> uitoa (unat (p4 ! 0)) @ ''.'' @ uitoa (unat (p4 ! 1)) @ ''.'' @
                   uitoa (unat (p4 ! 2)) @ ''.'' @ uitoa (unat (p4 ! 3))
      | None \<Rightarrow> ''?'' @ hexString ip)"

section \<open>incrementIP\<close>

text \<open>
  The loop of \<open>incrementIP\<close> runs \<open>j\<close> from \<open>len(ip) - 1\<close> down to 0. The first argument
  of \<open>incrementIP_from\<close> is \<open>j + 1\<close>, the number of bytes not yet visited; byte addition
  wraps around, and the loop breaks at the first byte that did not wrap to 0.
\<close>

fun incrementIP_from :: "nat \<Rightarrow> IP \<Rightarrow> IP" where
  "incrementIP_from 0 ip = ip"
| "incrementIP_from (Suc j) ip =
     (let ip' = ip[j := ip ! j + 1]
      in if ip' ! j > 0 then ip' else incrementIP_from j ip')"

definition incrementIP :: "IP \<Rightarrow> IP" where
  "incrementIP ip = incrementIP_from (length ip) ip"

section \<open>The enumeration loop of scanSubnet\<close>

text \<open>
  The \<open>for\<close> loop of \<open>scanSubnet\<close>, with the list of the addresses handed to a goroutine
  so far (each one a copy, \<open>append(net.IP(nil), ip...)\<close>). The loop ends when the address
  leaves the network; a loop that never ends is the value \<open>None\<close>. Reading \<open>ip[3]\<close> of a
  slice shorter than four bytes panics.
\<close>

partial_function (option) scanSubnet_loop ::
    "IPNet \<Rightarrow> IP \<Rightarrow> IP list \<Rightarrow> (panic + IP list) option" where
  "scanSubnet_loop ipnet ip launched =
     (if Contains ipnet ip then
        (if length ip \<le> 3 then Some (Inl IndexOutOfRange)
         else if ip ! 3 = 0 \<or> ip ! 3 = 255 then scanSubnet_loop ipnet (incrementIP ip) launched
         else scanSubnet_loop ipnet (incrementIP ip) (launched @ [ip]))
      else Some (Inr launched))"

declare scanSubnet_loop.simps [code]

text \<open>
  The start of the loop: \<open>ip := ipnet.IP.Mask(ipnet.Mask)\<close>, masked once more by the
  loop's own initialiser.
\<close>

definition candidates :: "IPNet \<Rightarrow> (panic + IP list) option" where
  "candidates ipnet =
     (let ip = IP_Mask (IPNet.IP ipnet) (Mask ipnet)
      in scanSubnet_loop ipnet (IP_Mask ip (Mask ipnet)) [])"

text \<open>
  The same loop cut off after \<open>k\<close> iterations, and the addresses it has handed to
  goroutines by then, also where the loop panics or has ended before. This is what a
  run that does not end produces.
\<close>

fun scanSubnet_loop_steps :: "nat \<Rightarrow> IPNet \<Rightarrow> IP \<Rightarrow> IP list \<Rightarrow> IP list" where
  "scanSubnet_loop_steps 0 ipnet ip launched = launched"
| "scanSubnet_loop_steps (Suc k) ipnet ip launched =
     (if Contains ipnet ip then
        (if length ip \<le> 3 then launched
         else if ip ! 3 = 0 \<or> ip ! 3 = 255
           then scanSubnet_loop_steps k ipnet (incrementIP ip) launched
         else scanSubnet_loop_steps k ipnet (incrementIP ip) (launched @ [ip]))
      else launched)"

definition launched_after :: "nat \<Rightarrow> IPNet \<Rightarrow> IP list" where
  "launched_after k ipnet =
     (let ip = IP_Mask (IPNet.IP ipnet) (Mask ipnet)
      in scanSubnet_loop_steps k ipnet (IP_Mask ip (Mask ipnet)) [])"

section \<open>The operating system and the resolver\<close>

text \<open>
  What the program cannot decide itself is a parameter, the \<open>world\<close>: the value of
  \<open>runtime.GOOS\<close>, what running a command leaves in \<open>cmd.ProcessState\<close>, and what
  \<open>net.LookupAddr\<close> returns. A world is a function of the command line and of the
  address, so the same question has the same answer during a sweep and between sweeps.

  \<open>cmd.Run()\<close> stores a process state only when the process was started and waited
  for. When the command cannot be started (the executable is not found, or may not be
  executed) \<open>Run\<close> returns an error and \<open>cmd.ProcessState\<close> stays nil.
  \<open>ProcessState.Success\<close> reads the exit status through its receiver, without a nil
  check.
\<close>

datatype ProcessState = Exited (ExitStatus: int)

record Cmd =
  Args :: "string list"
  ProcessState :: "ProcessState option"

record world =
  GOOS :: string
  run_process :: "string list \<Rightarrow> ProcessState option"
  LookupAddr :: "string \<Rightarrow> string list \<times> string option"

definition Command :: "string list \<Rightarrow> Cmd" where
  "Command args = \<lparr>Args = args, ProcessState = None\<rparr>"

definition Run :: "world \<Rightarrow> Cmd \<Rightarrow> Cmd" where
  "Run w cmd = cmd\<lparr>ProcessState := run_process w (Args cmd)\<rparr>"

definition Success :: "ProcessState option \<Rightarrow> panic + bool" where
  "Success p = (case p of None \<Rightarrow> Inl NilPointerDereference
                | Some st \<Rightarrow> Inr (ExitStatus st = 0))"

section \<open>pingHost and resolveHostname\<close>

definition pingHost :: "world \<Rightarrow> string \<Rightarrow> panic + bool" where
  "pingHost w host =
     (let cmd = (if GOOS w = ''windows''
                 then Command [''ping'', ''-n'', ''1'', ''-w'', ''1000'', host]
                 else Command [''ping'', ''-c'', ''1'', ''-W'', ''1'', host]);
          cmd' = Run w cmd
      in Success (ProcessState cmd'))"

text \<open>
  \<open>hostname[len(hostname)-1]\<close> panics on the empty string; \<open>hostname[:len(hostname)-1]\<close>
  drops the last byte.
\<close>

definition resolveHostname :: "world \<Rightarrow> string \<Rightarrow> panic + string" where
  "resolveHostname w ip =
     (case LookupAddr w ip of (names, err) \<Rightarrow>
        if err \<noteq> None \<or> length names = 0 then Inr []
        else (let hostname = names ! 0
              in if length hostname = 0 then Inl IndexOutOfRange
                 else if hostname ! (length hostname - 1) = CHR ''.''
                   then Inr (take (length hostname - 1) hostname)
                 else Inr hostname))"

section \<open>The goroutines of scanSubnet\<close>

text \<open>
  The body of one goroutine: \<open>None\<close> when nothing is appended, the appended \<open>Device\<close>
  otherwise (its address is a copy of \<open>targetIP\<close>). A panic in a goroutine ends the
  whole program.
\<close>

definition goroutine :: "world \<Rightarrow> IP \<Rightarrow> panic + Device option" where
  "goroutine w targetIP =
     (case pingHost w (IP_String targetIP) of
        Inl p \<Rightarrow> Inl p
      | Inr online \<Rightarrow>
          if online then
            (case resolveHostname w (IP_String targetIP) of
               Inl p \<Rightarrow> Inl p
             | Inr hostname \<Rightarrow>
                 Inr (Some \<lparr>Device.IP = targetIP, Online = online, Hostname = hostname\<rparr>))
          else Inr None)"

text \<open>
  The goroutines run in any order, and each append happens under the mutex: from the
  addresses still pending any one may finish next. \<open>wg.Wait()\<close> returns when none is
  pending.
\<close>

inductive run_goroutines ::
    "world \<Rightarrow> IP list \<Rightarrow> Device list \<Rightarrow> panic + Device list \<Rightarrow> bool" for w where
  all_done: "run_goroutines w [] devices (Inr devices)"
| offline: "t \<in> set pending \<Longrightarrow> goroutine w t = Inr None \<Longrightarrow>
     run_goroutines w (remove1 t pending) devices r \<Longrightarrow>
     run_goroutines w pending devices r"
| online: "t \<in> set pending \<Longrightarrow> goroutine w t = Inr (Some d) \<Longrightarrow>
     run_goroutines w (remove1 t pending) (devices @ [d]) r \<Longrightarrow>
     run_goroutines w pending devices r"
| crash: "t \<in> set pending \<Longrightarrow> goroutine w t = Inl p \<Longrightarrow>
     run_goroutines w pending devices (Inl p)"

section \<open>Sorting and scanSubnet\<close>

text \<open>
  The comparison handed to \<open>sort.Slice\<close>, and \<open>sort.Slice\<close> itself by its contract in
  Go's library: the result is a rearrangement of the slice in which no element is
  \<open>less\<close> than an earlier one; the sort is not stable, so elements that compare equal
  may come in any order.
\<close>

definition less_devices :: "Device \<Rightarrow> Device \<Rightarrow> bool" where
  "less_devices a b = (Device.IP a ! 3 < Device.IP b ! 3)"

definition sort_Slice :: "('a \<Rightarrow> 'a \<Rightarrow> bool) \<Rightarrow> 'a list \<Rightarrow> 'a list \<Rightarrow> bool" where
  "sort_Slice lessf xs ys = (mset ys = mset xs \<and> sorted_wrt (\<lambda>a b. \<not> lessf b a) ys)"

text \<open>
  \<open>scanSubnet\<close> as a relation between the network and what a call can end in: a panic,
  or the returned slice. The comparison reads \<open>IP[3]\<close> of the devices, which panics for an
  address shorter than four bytes when there is anything to compare. The relation
  describes the calls whose enumeration loop ends, and lets the goroutines run after
  the loop: a goroutine shares nothing with the loop but its own copy of the address,
  so what it appends does not depend on when it runs.
\<close>

inductive scanSubnet :: "world \<Rightarrow> IPNet \<Rightarrow> panic + Device list \<Rightarrow> bool" for w ipnet where
  loop_panic: "candidates ipnet = Some (Inl p) \<Longrightarrow> scanSubnet w ipnet (Inl p)"
| goroutine_panic: "candidates ipnet = Some (Inr targets) \<Longrightarrow>
     run_goroutines w targets [] (Inl p) \<Longrightarrow> scanSubnet w ipnet (Inl p)"
| sort_panic: "candidates ipnet = Some (Inr targets) \<Longrightarrow>
     run_goroutines w targets [] (Inr devices) \<Longrightarrow>
     2 \<le> length devices \<Longrightarrow> \<not> list_all (\<lambda>d. 3 < length (Device.IP d)) devices \<Longrightarrow>
     scanSubnet w ipnet (Inl IndexOutOfRange)"
| returns: "candidates ipnet = Some (Inr targets) \<Longrightarrow>
     run_goroutines w targets [] (Inr devices) \<Longrightarrow>
     length devices < 2 \<or> list_all (\<lambda>d. 3 < length (Device.IP d)) devices \<Longrightarrow>
     sort_Slice less_devices devices result \<Longrightarrow>
     scanSubnet w ipnet (Inr result)"

section \<open>Notions used in the statements and proofs\<close>

text \<open>
  An IPv4 network, as \<open>getNetworkInterfaces\<close> passes them on: the address has a 4-byte
  form (\<open>To4\<close> is not nil) and the mask has four bytes. Its network address is the
  masked address the loop starts from. \<open>ipval\<close> reads an address as a big-endian
  number, and \<open>keep\<close> is the negation of the loop's \<open>continue\<close> test.
\<close>

definition ipval :: "IP \<Rightarrow> nat" where
  "ipval ip = foldl (\<lambda>v b. v * 256 + unat b) 0 ip"

definition ipv4_net :: "IPNet \<Rightarrow> bool" where
  "ipv4_net n = (To4 (IPNet.IP n) \<noteq> None \<and> length (Mask n) = IPv4len)"

definition network_address :: "IPNet \<Rightarrow> IP" where
  "network_address n = IP_Mask (IPNet.IP n) (Mask n)"

definition keep :: "IP \<Rightarrow> bool" where
  "keep ip = (\<not> (ip ! 3 = 0 \<or> ip ! 3 = 255))"

text \<open>
  What the goroutine for one address appends, and what the goroutines for a list of
  addresses append when they finish in the order of the list. \<open>final_octet\<close> is the
  sort key \<open>IP[3]\<close> of a device.
\<close>

definition appends :: "world \<Rightarrow> IP \<Rightarrow> Device list" where
  "appends w t = (case goroutine w t of Inr (Some d) \<Rightarrow> [d] | _ \<Rightarrow> [])"

fun appended :: "world \<Rightarrow> IP list \<Rightarrow> Device list" where
  "appended w [] = []"
| "appended w (t # ts) = appends w t @ appended w ts"

definition final_octet :: "Device \<Rightarrow> byte" where
  "final_octet d = Device.IP d ! 3"

text \<open>
  Concrete networks and worlds for the examples: the network of an interface with the
  address 192.168.1.5/30, in the 16-byte form in which Go reports interface addresses;
  the network 192.168.1.0/24; a network with the mask 0.0.0.0; and a world in which
  192.168.1.5 and 192.168.1.6 answer the ping and only the second has a name.
\<close>

definition lan30 :: IPNet where
  "lan30 = \<lparr>IPNet.IP = [0, 0, 0, 0, 0, 0, 0, 0, 0, 0, 0xff, 0xff, 192, 168, 1, 5],
             Mask = [255, 255, 255, 252]\<rparr>"

definition lan24 :: IPNet where
  "lan24 = \<lparr>IPNet.IP = [192, 168, 1, 0], Mask = [255, 255, 255, 0]\<rparr>"

definition net0 :: IPNet where
  "net0 = \<lparr>IPNet.IP = [10, 0, 0, 1], Mask = [0, 0, 0, 0]\<rparr>"

definition small_world :: world where
  "small_world =
     \<lparr>GOOS = ''linux'',
      run_process = (\<lambda>args. Some (Exited
         (if last args = ''192.168.1.5'' \<or> last args = ''192.168.1.6'' then 0 else 1))),
      LookupAddr = (\<lambda>addr. if addr = ''192.168.1.6'' then ([''printer.lan.''], None)
                           else ([], Some ''no such host''))\<rparr>"

text \<open>
  The world of the end-to-end scenario (192.168.1.1, .50 and .254 answer, and only .1
  has a name); a world in which no host answers; and the network 10.0.0.0/23 with a
  world in which 10.0.0.5 and 10.0.1.5 answer.
\<close>

definition fake_world :: world where
  "fake_world =
     \<lparr>GOOS = ''linux'',
      run_process = (\<lambda>args. Some (Exited
         (if last args = ''192.168.1.1'' \<or> last args = ''192.168.1.50'' \<or>
             last args = ''192.168.1.254'' then 0 else 1))),
      LookupAddr = (\<lambda>addr. if addr = ''192.168.1.1'' then ([''gateway.lan.''], None)
                           else ([], Some ''no such host''))\<rparr>"

definition quiet_world :: world where
  "quiet_world =
     \<lparr>GOOS = ''windows'',
      run_process = (\<lambda>args. Some (Exited 1)),
      LookupAddr = (\<lambda>addr. ([], Some ''no such host''))\<rparr>"

definition lan23 :: IPNet where
  "lan23 = \<lparr>IPNet.IP = [10, 0, 0, 9], Mask = [255, 255, 254, 0]\<rparr>"

definition twin_world :: world where
  "twin_world =
     \<lparr>GOOS = ''linux'',
      run_process = (\<lambda>args. Some (Exited
         (if last args = ''10.0.0.5'' \<or> last args = ''10.0.1.5'' then 0 else 1))),
      LookupAddr = (\<lambda>addr. ([], Some ''no such host''))\<rparr>"

section \<open>Arithmetic of incrementIP\<close>

lemma length4E:
  assumes "length (ip :: 'a list) = 4"
  obtains a b c d where "ip = [a, b, c, d]"
  using assms by (auto simp: length_Suc_conv numeral_eq_Suc)

lemma unat_byte_lt: "unat (x::byte) < 256"
  using unsigned_less[of x] by simp

lemma unat_byte_inc_mod: "unat ((x::byte) + 1) = (unat x + 1) mod 256"
  by (simp add: unat_word_ariths)

lemma byte_255_iff: "((x::byte) = 255) = (unat x = 255)"
  by (simp add: word_unat_eq_iff)

lemma byte_inc_eq0: "((x::byte) + 1 = 0) = (x = 255)"
proof -
  have "(x + 1 = 0) = (unat (x + 1) = 0)" by (simp add: word_unat_eq_iff)
  also have "\<dots> = (unat x = 255)"
    using unat_byte_lt[of x] unfolding unat_byte_inc_mod by presburger
  finally show ?thesis by (simp add: byte_255_iff)
qed

lemma byte_inc_gt0: "((x::byte) + 1 > 0) = (x \<noteq> 255)"
  by (simp add: word_gt_0 byte_inc_eq0 eq_commute[of 0])

lemma incrementIP_from_length [simp]: "length (incrementIP_from j ip) = length ip"
  by (induction j arbitrary: ip) (auto simp: Let_def)

lemma incrementIP_length [simp]: "length (incrementIP ip) = length ip"
  by (simp add: incrementIP_def)

lemma incrementIP4:
  "incrementIP [a, b, c, d] =
     (if d \<noteq> 255 then [a, b, c, d + 1]
      else if c \<noteq> 255 then [a, b, c + 1, 0]
      else if b \<noteq> 255 then [a, b + 1, 0, 0]
      else [a + 1, 0, 0, 0])"
  by (simp add: incrementIP_def Let_def byte_inc_gt0)

lemma ipval4: "ipval [a, b, c, d] = ((unat a * 256 + unat b) * 256 + unat c) * 256 + unat d"
  by (simp add: ipval_def)

lemma ipval_lt: "length ip = 4 \<Longrightarrow> ipval ip < 2 ^ 32"
proof -
  assume "length ip = 4"
  then obtain a b c d where ip: "ip = [a, b, c, d]" by (rule length4E)
  show ?thesis
    using unat_byte_lt[of a] unat_byte_lt[of b] unat_byte_lt[of c] unat_byte_lt[of d]
    by (simp add: ip ipval4)
qed

lemma digit_split:
  fixes x d x' d' :: nat
  assumes "x * 256 + d = x' * 256 + d'" "d < 256" "d' < 256"
  shows "x = x' \<and> d = d'"
proof -
  have "(x * 256 + d) div 256 = x" "(x' * 256 + d') div 256 = x'"
    using assms(2,3) by simp_all
  then have "x = x'" using assms(1) by simp
  then show ?thesis using assms(1) by simp
qed

lemma ipval_inj:
  assumes "length x = 4" "length y = 4" "ipval x = ipval y"
  shows "x = y"
proof -
  obtain a b c d where x: "x = [a, b, c, d]" using assms(1) by (rule length4E)
  obtain a' b' c' d' where y: "y = [a', b', c', d']" using assms(2) by (rule length4E)
  have e: "((unat a * 256 + unat b) * 256 + unat c) * 256 + unat d
         = ((unat a' * 256 + unat b') * 256 + unat c') * 256 + unat d'"
    using assms(3) unfolding x y ipval4 .
  have 1: "(unat a * 256 + unat b) * 256 + unat c = (unat a' * 256 + unat b') * 256 + unat c'"
    and d: "unat d = unat d'"
    using digit_split[OF e unat_byte_lt unat_byte_lt] by simp_all
  have 2: "unat a * 256 + unat b = unat a' * 256 + unat b'" and c: "unat c = unat c'"
    using digit_split[OF 1 unat_byte_lt unat_byte_lt] by simp_all
  have 3: "unat a = unat a'" and b: "unat b = unat b'"
    using digit_split[OF 2 unat_byte_lt unat_byte_lt] by simp_all
  show ?thesis using 3 b c d by (simp add: x y word_unat_eq_iff)
qed

lemma ipval_incrementIP:
  assumes "length ip = 4"
  shows "ipval (incrementIP ip) = (ipval ip + 1) mod 2 ^ 32"
proof -
  obtain a b c d where ip: "ip = [a, b, c, d]" using assms by (rule length4E)
  have inc: "unat (x + 1) = unat x + 1" if "x \<noteq> 255" for x :: byte
    using that unat_byte_lt[of x] unfolding unat_byte_inc_mod byte_255_iff by simp
  have lt: "ipval (incrementIP ip) < 2 ^ 32"
    by (rule ipval_lt) (simp add: assms)
  show ?thesis
  proof (cases "a = 255 \<and> b = 255 \<and> c = 255 \<and> d = 255")
    case True
    then have "incrementIP ip = [0, 0, 0, 0]" and "ipval ip = 4294967295"
      by (simp_all add: ip incrementIP4 ipval4)
    then show ?thesis by (simp add: ipval4)
  next
    case False
    then have "ipval (incrementIP ip) = ipval ip + 1"
      by (auto simp add: ip incrementIP4 ipval4 inc)
    then show ?thesis using lt by simp
  qed
qed

lemma upt4: "[0..<4] = [0, 1, 2, Suc 2]"
  by (simp add: upt_rec)

lemma IP_Mask4:
  "IP_Mask [a, b, c, d] [m0, m1, m2, m3] = [a AND m0, b AND m1, c AND m2, d AND m3]"
  by (simp add: IP_Mask_def IPv4len_def IPv6len_def upt_rec)

lemma To4_length: "To4 ip = Some p \<Longrightarrow> length p = 4"
  by (auto simp: To4_def IPv4len_def IPv6len_def split: if_splits)

lemma To4_self: "length ip = 4 \<Longrightarrow> To4 ip = Some ip"
  by (simp add: To4_def IPv4len_def)

lemma To4_prefix:
  assumes "To4 ip = Some p" "length ip \<noteq> 4"
  shows "length ip = 16 \<and> take 12 ip = v4InV6Prefix \<and> p = drop 12 ip"
proof -
  from assms have l: "length ip = 16" and z: "isZeros (take 10 ip)"
    and a: "ip ! 10 = 0xff" and b: "ip ! 11 = 0xff" and p: "p = take 4 (drop 12 ip)"
    by (auto simp: To4_def IPv4len_def IPv6len_def split: if_splits)
  have "take 12 ip = v4InV6Prefix"
  proof (rule nth_equalityI)
    show "length (take 12 ip) = length v4InV6Prefix" by (simp add: l v4InV6Prefix_def)
  next
    fix i assume "i < length (take 12 ip)"
    then have i: "i < 12" by simp
    have zz: "ip ! j = 0" if "j < 10" for j
    proof -
      have "take 10 ip ! j \<in> set (take 10 ip)" using that l by (intro nth_mem) simp
      then have "take 10 ip ! j = 0" using z by (simp add: isZeros_def list_all_iff)
      then show ?thesis using that by simp
    qed
    consider "i < 10" | "i = 10" | "i = 11" using i by linarith
    then show "take 12 ip ! i = v4InV6Prefix ! i"
    proof cases
      case 1
      then have "v4InV6Prefix ! i = 0"
        unfolding v4InV6Prefix_def by (auto simp: nth_Cons' )
      then show ?thesis using 1 zz by simp
    next
      case 2 then show ?thesis using a by (simp add: v4InV6Prefix_def)
    next
      case 3 then show ?thesis using b by (simp add: v4InV6Prefix_def)
    qed
  qed
  then show ?thesis using l p by simp
qed

lemma IP_Mask_To4:
  assumes "To4 ip = Some p" "length m = 4"
  shows "IP_Mask ip m = IP_Mask p m"
proof (cases "length ip = 4")
  case True
  then show ?thesis using assms by (simp add: To4_def IPv4len_def)
next
  case False
  from To4_prefix[OF assms(1) False] have l: "length ip = 16"
    and t: "take 12 ip = v4InV6Prefix" and p: "p = drop 12 ip" by simp_all
  have lp: "length p = 4" using assms(1) by (rule To4_length)
  show ?thesis
    using l t lp assms(2) unfolding p
    by (simp add: IP_Mask_def IPv4len_def IPv6len_def)
qed

lemma Contains_ipv4:
  assumes "To4 (IPNet.IP n) = Some p" "length (Mask n) = 4" "length x = 4"
  shows "Contains n x = (IP_Mask x (Mask n) = IP_Mask p (Mask n))"
proof -
  have lp: "length p = 4" using assms(1) by (rule To4_length)
  obtain p0 p1 p2 p3 where p: "p = [p0, p1, p2, p3]" using lp by (rule length4E)
  obtain m0 m1 m2 m3 where m: "Mask n = [m0, m1, m2, m3]" using assms(2) by (rule length4E)
  obtain x0 x1 x2 x3 where x: "x = [x0, x1, x2, x3]" using assms(3) by (rule length4E)
  have nn: "networkNumberAndMask n = (p, Mask n)"
    using assms(1,2) lp by (simp add: networkNumberAndMask_def IPv4len_def IPv6len_def)
  show ?thesis
    unfolding Contains_def nn
    by (simp add: To4_self assms(3) Let_def) (auto simp add: p m x IP_Mask4 upt4)
qed

lemma funpow_incrementIP_length [simp]: "length ((incrementIP ^^ k) ip) = length ip"
  by (induction k) simp_all

lemma ipval_funpow:
  "length ip = 4 \<Longrightarrow> ipval ((incrementIP ^^ k) ip) = (ipval ip + k) mod 2 ^ 32"
proof (induction k)
  case 0
  then show ?case using ipval_lt[of ip] by simp
next
  case (Suc k)
  then show ?case by (simp add: ipval_incrementIP mod_Suc_eq)
qed

lemma funpow_reaches:
  assumes "length ip = 4" "length x = 4"
  shows "\<exists>k < 2 ^ 32. (incrementIP ^^ k) ip = x"
proof -
  define k where "k = (ipval x + (2 ^ 32 - ipval ip)) mod 2 ^ 32"
  have lt: "ipval ip < 2 ^ 32" "ipval x < 2 ^ 32"
    using ipval_lt[OF assms(1)] ipval_lt[OF assms(2)] by simp_all
  have "(ipval ip + k) mod 2 ^ 32 = (ipval ip + (ipval x + (2 ^ 32 - ipval ip))) mod 2 ^ 32"
    unfolding k_def by (simp add: mod_add_right_eq)
  also have "ipval ip + (ipval x + (2 ^ 32 - ipval ip)) = ipval x + 2 ^ 32"
    using lt by simp
  also have "(ipval x + 2 ^ 32) mod 2 ^ 32 = ipval x" using lt by simp
  finally have "ipval ((incrementIP ^^ k) ip) = ipval x"
    by (simp add: ipval_funpow assms)
  then have "(incrementIP ^^ k) ip = x"
    by (intro ipval_inj) (simp_all add: assms)
  moreover have "k < 2 ^ 32" unfolding k_def by simp
  ultimately show ?thesis by blast
qed

lemma mod_add_inj:
  fixes v i j N :: nat
  assumes "(v + i) mod N = (v + j) mod N" "i < N" "j < N"
  shows "i = j"
proof -
  have *: "a = b" if "a \<le> b" "(v + a) mod N = (v + b) mod N" "b < N" for a b
  proof -
    have "v + a \<le> v + b" using that(1) by simp
    from mod_eq_dvd_iff_nat[OF this, of N] have "N dvd (v + b) - (v + a)"
      using that(2) by simp
    then have "N dvd b - a" by simp
    moreover have "b - a < N" using that(3) by simp
    ultimately have "b - a = 0" by (meson dvd_imp_le not_le zero_less_iff_neq_zero)
    then show ?thesis using that(1) by simp
  qed
  show ?thesis
  proof (cases "i \<le> j")
    case True
    then show ?thesis using * assms by blast
  next
    case False
    then have "j = i" using *[of j i] assms by simp
    then show ?thesis by simp
  qed
qed

lemma funpow_inj:
  assumes "length ip = 4" "i < 2 ^ 32" "j < 2 ^ 32"
    "(incrementIP ^^ i) ip = (incrementIP ^^ j) ip"
  shows "i = j"
proof -
  have "(ipval ip + i) mod 2 ^ 32 = (ipval ip + j) mod 2 ^ 32"
    using assms(4) ipval_funpow[OF assms(1), of i] ipval_funpow[OF assms(1), of j] by simp
  then show ?thesis using assms(2,3) by (rule mod_add_inj)
qed

lemma incrementIP_cycle:
  assumes "length ip = 4"
  shows "(incrementIP ^^ (2 ^ 32)) ip = ip"
proof (rule ipval_inj)
  show "length ((incrementIP ^^ (2 ^ 32)) ip) = 4" using assms by simp
  show "length ip = 4" by (rule assms)
  show "ipval ((incrementIP ^^ (2 ^ 32)) ip) = ipval ip"
    using ipval_lt[OF assms] by (simp add: ipval_funpow[OF assms])
qed

lemma scanSubnet_loop_unroll:
  assumes "\<And>i. i < d \<Longrightarrow> Contains n ((incrementIP ^^ i) ip)"
    and "\<not> Contains n ((incrementIP ^^ d) ip)" and "length ip = 4"
  shows "scanSubnet_loop n ip launched =
     Some (Inr (launched @ filter keep (map (\<lambda>i. (incrementIP ^^ i) ip) [0..<d])))"
  using assms
proof (induction d arbitrary: ip launched)
  case 0
  then show ?case by (subst scanSubnet_loop.simps) simp
next
  case (Suc d)
  have c: "Contains n ip" using Suc.prems(1)[of 0] by simp
  have ih: "scanSubnet_loop n (incrementIP ip) l =
     Some (Inr (l @ filter keep (map (\<lambda>i. (incrementIP ^^ i) (incrementIP ip)) [0..<d])))" for l
  proof (rule Suc.IH)
    fix i assume "i < d"
    then show "Contains n ((incrementIP ^^ i) (incrementIP ip))"
      using Suc.prems(1)[of "Suc i"] by (simp add: funpow_swap1)
  next
    show "\<not> Contains n ((incrementIP ^^ d) (incrementIP ip))"
      using Suc.prems(2) by (simp add: funpow_swap1)
  next
    show "length (incrementIP ip) = 4" using Suc.prems(3) by simp
  qed
  have m: "map (\<lambda>i. (incrementIP ^^ i) ip) [0..<Suc d] =
      ip # map (\<lambda>i. (incrementIP ^^ i) (incrementIP ip)) [0..<d]"
    by (simp add: upt_conv_Cons map_Suc_upt[symmetric] funpow_swap1 del: upt_Suc)
  show ?case
    by (subst scanSubnet_loop.simps) (simp add: c Suc.prems(3) ih m keep_def del: upt_Suc)
qed

lemma and_not_self_mask: "(NOT (b AND m)) AND m = (b AND m) \<Longrightarrow> m = (0::byte)"
  by (metis and.left_idem bit.conj_cancel_left disjunctive_and_not_eq_xor
    xor.left_neutral zero_and_eq)

lemma and_not_self_mask2: "(NOT b OR NOT m) AND m = b AND m \<Longrightarrow> m = (0::byte)"
  using and_not_self_mask[of b m] by simp

lemma network_address_ipv4:
  assumes "To4 (IPNet.IP n) = Some p" "length (Mask n) = 4"
  shows "network_address n = IP_Mask p (Mask n)" "length (network_address n) = 4"
    "IP_Mask (network_address n) (Mask n) = network_address n"
proof -
  have lp: "length p = 4" using assms(1) by (rule To4_length)
  obtain p0 p1 p2 p3 where p: "p = [p0, p1, p2, p3]" using lp by (rule length4E)
  obtain m0 m1 m2 m3 where m: "Mask n = [m0, m1, m2, m3]" using assms(2) by (rule length4E)
  show 1: "network_address n = IP_Mask p (Mask n)"
    unfolding network_address_def using assms by (rule IP_Mask_To4)
  show "length (network_address n) = 4" by (simp add: 1 p m IP_Mask4)
  show "IP_Mask (network_address n) (Mask n) = network_address n"
    by (simp add: 1 p m IP_Mask4)
qed

lemma outside_exists:
  assumes "To4 (IPNet.IP n) = Some p" "length (Mask n) = 4" "Mask n \<noteq> [0, 0, 0, 0]"
  shows "\<exists>x. length x = 4 \<and> \<not> Contains n x"
proof -
  have lp: "length p = 4" using assms(1) by (rule To4_length)
  obtain p0 p1 p2 p3 where p: "p = [p0, p1, p2, p3]" using lp by (rule length4E)
  obtain m0 m1 m2 m3 where m: "Mask n = [m0, m1, m2, m3]" using assms(2) by (rule length4E)
  let ?x = "[NOT (p0 AND m0), NOT (p1 AND m1), NOT (p2 AND m2), NOT (p3 AND m3)]"
  have "\<not> Contains n ?x"
  proof
    assume "Contains n ?x"
    then have "IP_Mask ?x (Mask n) = IP_Mask p (Mask n)"
      using Contains_ipv4[OF assms(1,2), of ?x] by simp
    then have "m0 = 0 \<and> m1 = 0 \<and> m2 = 0 \<and> m3 = 0"
      by (auto simp add: p m IP_Mask4 dest: and_not_self_mask2)
    then show False using assms(3) m by simp
  qed
  then show ?thesis by (intro exI[of _ ?x]) simp
qed

lemma first_exit:
  assumes "To4 (IPNet.IP n) = Some p" "length (Mask n) = 4" "Mask n \<noteq> [0, 0, 0, 0]"
    and "length ip = 4"
  shows "\<exists>d < 2 ^ 32. (\<forall>i < d. Contains n ((incrementIP ^^ i) ip)) \<and>
            \<not> Contains n ((incrementIP ^^ d) ip)"
proof -
  obtain x where x: "length x = 4" "\<not> Contains n x"
    using outside_exists[OF assms(1-3)] by blast
  obtain k where k: "k < 2 ^ 32" "(incrementIP ^^ k) ip = x"
    using funpow_reaches[OF assms(4) x(1)] by blast
  define d where "d = (LEAST d. \<not> Contains n ((incrementIP ^^ d) ip))"
  have ex: "\<not> Contains n ((incrementIP ^^ k) ip)" using x(2) k(2) by simp
  have 1: "\<not> Contains n ((incrementIP ^^ d) ip)"
    unfolding d_def using ex by (rule LeastI)
  have 2: "Contains n ((incrementIP ^^ i) ip)" if "i < d" for i
    using not_less_Least[of i "\<lambda>d. \<not> Contains n ((incrementIP ^^ d) ip)"] that
    unfolding d_def by blast
  have "d \<le> k" unfolding d_def using ex by (rule Least_le)
  then have "d < 2 ^ 32" using k(1) by simp
  then show ?thesis using 1 2 by blast
qed

lemma candidates_shape:
  assumes "ipv4_net n" "Mask n \<noteq> [0, 0, 0, 0]"
  shows "\<exists>d < 2 ^ 32.
      (\<forall>i < d. Contains n ((incrementIP ^^ i) (network_address n))) \<and>
      \<not> Contains n ((incrementIP ^^ d) (network_address n)) \<and>
      candidates n =
        Some (Inr (filter keep (map (\<lambda>i. (incrementIP ^^ i) (network_address n)) [0..<d])))"
proof -
  from assms(1) obtain p where p: "To4 (IPNet.IP n) = Some p" and m: "length (Mask n) = 4"
    by (auto simp: ipv4_net_def IPv4len_def)
  note na = network_address_ipv4[OF p m]
  obtain d where d: "d < 2 ^ 32" "\<And>i. i < d \<Longrightarrow> Contains n ((incrementIP ^^ i) (network_address n))"
      "\<not> Contains n ((incrementIP ^^ d) (network_address n))"
    using first_exit[OF p m assms(2) na(2)] by blast
  have "candidates n = scanSubnet_loop n (network_address n) []"
    by (simp add: candidates_def Let_def na(3) network_address_def[symmetric])
  also have "\<dots> = Some (Inr ([] @ filter keep (map (\<lambda>i. (incrementIP ^^ i) (network_address n)) [0..<d])))"
    using d(2,3) na(2) by (rule scanSubnet_loop_unroll)
  finally show ?thesis using d by auto
qed

lemma Contains_zero_mask:
  assumes "To4 (IPNet.IP n) = Some p" "Mask n = [0, 0, 0, 0]" "length x = 4"
  shows "Contains n x"
proof -
  have lp: "length p = 4" using assms(1) by (rule To4_length)
  obtain p0 p1 p2 p3 where p: "p = [p0, p1, p2, p3]" using lp by (rule length4E)
  obtain x0 x1 x2 x3 where x: "x = [x0, x1, x2, x3]" using assms(3) by (rule length4E)
  have "length (Mask n) = 4" by (simp add: assms(2))
  from Contains_ipv4[OF assms(1) this assms(3)] show ?thesis
    by (simp add: assms(2) p x IP_Mask4)
qed

lemma scanSubnet_loop_zero_mask:
  assumes "To4 (IPNet.IP n) = Some p" "Mask n = [0, 0, 0, 0]" "length ip = 4"
  shows "scanSubnet_loop n ip launched = None"
proof -
  have "\<not> (n' = n \<and> length ip' = 4)" if "scanSubnet_loop n' ip' l' = Some y" for n' ip' l' y
  proof (rule scanSubnet_loop.raw_induct
      [where P = "\<lambda>n' ip' l' y. \<not> (n' = n \<and> length ip' = 4)", OF _ that])
    fix loop :: "IPNet \<Rightarrow> IP \<Rightarrow> IP list \<Rightarrow> (panic + IP list) option"
    fix n' ip' l' y
    assume IH: "\<And>n' ip' l' y. loop n' ip' l' = Some y \<Longrightarrow> \<not> (n' = n \<and> length ip' = 4)"
      and body: "(if Contains n' ip' then
          (if length ip' \<le> 3 then Some (Inl IndexOutOfRange)
           else if ip' ! 3 = 0 \<or> ip' ! 3 = 255 then loop n' (incrementIP ip') l'
           else loop n' (incrementIP ip') (l' @ [ip']))
        else Some (Inr l')) = Some y"
    show "\<not> (n' = n \<and> length ip' = 4)"
    proof
      assume a: "n' = n \<and> length ip' = 4"
      then have "Contains n' ip'" using Contains_zero_mask[OF assms(1,2)] by simp
      with a body have "loop n (incrementIP ip') l' = Some y \<or>
          loop n (incrementIP ip') (l' @ [ip']) = Some y"
        by (simp split: if_splits)
      then show False using IH[of n "incrementIP ip'"] a by auto
    qed
  qed
  then show ?thesis using assms(3) by (cases "scanSubnet_loop n ip launched") auto
qed

lemma byte_and_255 [simp]: "(x::byte) AND 255 = x"
proof -
  have "(255::byte) = - 1" by simp
  then show ?thesis by (simp only: and.right_neutral word_bw_comms bit.conj_one_right)
qed

lemma byte_inc_neq [simp]: "(x::byte) + 1 \<noteq> x"
  by simp

lemma unat_of_nat_byte: "k < 256 \<Longrightarrow> unat (of_nat k :: byte) = k"
  by (simp add: unat_of_nat)

lemma funpow_24:
  assumes "i < 256"
  shows "(incrementIP ^^ i) [a, b, c, 0] = [a, b, c, of_nat i]"
proof (rule ipval_inj)
  show "length ((incrementIP ^^ i) [a, b, c, 0]) = 4" by simp
  show "length [a, b, c, of_nat i :: byte] = 4" by simp
  have "ipval [a, b, c, 0] + i = ipval [a, b, c, of_nat i]"
    using assms by (simp add: ipval4 unat_of_nat_byte)
  moreover have "ipval [a, b, c, of_nat i] < 2 ^ 32" by (rule ipval_lt) simp
  ultimately show "ipval ((incrementIP ^^ i) [a, b, c, 0]) = ipval [a, b, c, of_nat i]"
    by (simp add: ipval_funpow)
qed

lemma filter_keep_24:
  "filter keep (map (\<lambda>i. [a, b, c, of_nat i]) [0..<256]) =
     map (\<lambda>i. [a, b, c, of_nat i]) [1..<255]"
proof -
  let ?f = "\<lambda>i::nat. [a, b, c, of_nat i :: byte]"
  have k: "keep (?f i)" if "0 < i" "i < 255" for i
  proof -
    have "unat (of_nat i :: byte) = i" using that by (simp add: unat_of_nat_byte)
    then have "(of_nat i :: byte) \<noteq> 0" "(of_nat i :: byte) \<noteq> 255"
      using that by (auto simp add: word_unat_eq_iff)
    then show ?thesis by (simp add: keep_def)
  qed
  have mid: "filter keep (map ?f [1..<255]) = map ?f [1..<255]"
    by (rule filter_True) (auto simp: k)
  have ends: "\<not> keep (?f 0)" "\<not> keep (?f 255)" by (simp_all add: keep_def)
  have "[0..<256] = [0] @ [1..<255] @ [255::nat]"
    by (simp add: upt_rec[of 0 256] upt_Suc_append[symmetric] del: upt_Suc)
  then have "map ?f [0..<256] = [?f 0] @ map ?f [1..<255] @ [?f 255]"
    by (simp only: map_append list.map)
  then show ?thesis using ends by (simp only: filter_append mid filter.simps if_False append_Nil append_Nil2)
qed

lemma candidates_24:
  assumes "To4 (IPNet.IP n) = Some [a, b, c, e]" "Mask n = [255, 255, 255, 0]"
  shows "candidates n = Some (Inr (map (\<lambda>i. [a, b, c, of_nat i]) [1..<255]))"
proof -
  have m: "length (Mask n) = 4" by (simp add: assms(2))
  note na = network_address_ipv4[OF assms(1) m]
  have base: "network_address n = [a, b, c, 0]"
    by (simp add: na(1) assms(2) IP_Mask4)
  have C: "Contains n [x0, x1, x2, x3] = (x0 = a \<and> x1 = b \<and> x2 = c)" for x0 x1 x2 x3
    using Contains_ipv4[OF assms(1) m, of "[x0, x1, x2, x3]"]
    by (simp add: assms(2) IP_Mask4)
  have "(incrementIP ^^ 256) [a, b, c, 0] = incrementIP ((incrementIP ^^ 255) [a, b, c, 0])"
    by (simp add: eval_nat_numeral)
  also have "\<dots> = incrementIP [a, b, c, 255]" by (simp add: funpow_24)
  finally have out: "\<not> Contains n ((incrementIP ^^ 256) [a, b, c, 0])"
    by (simp add: incrementIP4 C)
  have "candidates n = scanSubnet_loop n [a, b, c, 0] []"
    using na(3) by (simp add: candidates_def Let_def network_address_def[symmetric] base)
  also have "\<dots> = Some (Inr ([] @ filter keep (map (\<lambda>i. (incrementIP ^^ i) [a, b, c, 0]) [0..<256])))"
  proof (rule scanSubnet_loop_unroll)
    fix i :: nat assume "i < 256"
    then show "Contains n ((incrementIP ^^ i) [a, b, c, 0])" by (simp add: funpow_24 C)
  qed (simp_all add: out)
  also have "map (\<lambda>i. (incrementIP ^^ i) [a, b, c, 0]) [0..<256] = map (\<lambda>i. [a, b, c, of_nat i]) [0..<256]"
    by (rule map_cong) (simp_all add: funpow_24)
  finally show ?thesis by (simp only: filter_keep_24 append_Nil)
qed

section \<open>The goroutines and the sort\<close>

lemma goroutine_Some:
  assumes "goroutine w t = Inr (Some d)"
  shows "Device.IP d = t" "Online d" "pingHost w (IP_String t) = Inr True"
    "resolveHostname w (IP_String t) = Inr (Hostname d)"
  using assms by (auto simp: goroutine_def split: sum.splits if_splits)

lemma goroutine_offline:
  "pingHost w (IP_String t) = Inr False \<Longrightarrow> goroutine w t = Inr None"
  by (simp add: goroutine_def)

lemma appends_None [simp]: "goroutine w t = Inr None \<Longrightarrow> appends w t = []"
  by (simp add: appends_def)

lemma appends_Some [simp]: "goroutine w t = Inr (Some d) \<Longrightarrow> appends w t = [d]"
  by (simp add: appends_def)

lemma appends_cases:
  "appends w t = [] \<or> (\<exists>d. goroutine w t = Inr (Some d) \<and> appends w t = [d])"
  by (cases "goroutine w t") (auto simp: appends_def split: option.splits)

lemma appended_remove1:
  "t \<in> set ts \<Longrightarrow>
     mset (appended w ts) = mset (appends w t) + mset (appended w (remove1 t ts))"
  by (induction ts) auto

lemma run_goroutines_Inr:
  "run_goroutines w pending devices res \<Longrightarrow> res = Inr r \<Longrightarrow>
     \<exists>new. r = devices @ new \<and> mset new = mset (appended w pending)"
proof (induction arbitrary: r rule: run_goroutines.induct)
  case (all_done devices)
  then show ?case by simp
next
  case (offline t pending devices res)
  from offline.IH[OF offline.prems] obtain new where
    new: "r = devices @ new" "mset new = mset (appended w (remove1 t pending))"
    by blast
  have "mset new = mset (appended w pending)"
    using new(2) appended_remove1[OF offline.hyps(1), of w] offline.hyps(2) by simp
  then show ?case using new(1) by blast
next
  case (online t pending d devices res)
  from online.IH[OF online.prems] obtain new where
    new: "r = (devices @ [d]) @ new" "mset new = mset (appended w (remove1 t pending))"
    by blast
  have "mset (d # new) = mset (appended w pending)"
    using new(2) appended_remove1[OF online.hyps(1), of w] online.hyps(2) by simp
  moreover have "r = devices @ (d # new)" using new(1) by simp
  ultimately show ?case by blast
next
  case (crash t pending p devices)
  then show ?case by simp
qed

lemma run_goroutines_Inl:
  "run_goroutines w pending devices res \<Longrightarrow> res = Inl p \<Longrightarrow>
     \<exists>t \<in> set pending. goroutine w t = Inl p"
proof (induction rule: run_goroutines.induct)
  case (all_done devices)
  then show ?case by simp
next
  case (offline t pending devices res)
  then obtain t' where "t' \<in> set (remove1 t pending)" "goroutine w t' = Inl p" by blast
  then show ?case using notin_set_remove1[of t' pending t] by blast
next
  case (online t pending d devices res)
  then obtain t' where "t' \<in> set (remove1 t pending)" "goroutine w t' = Inl p" by blast
  then show ?case using notin_set_remove1[of t' pending t] by blast
next
  case (crash t pending p' devices)
  then show ?case by auto
qed

lemma run_goroutines_no_panic:
  "run_goroutines w pending devices res \<Longrightarrow> res = Inr r \<Longrightarrow> t \<in> set pending \<Longrightarrow>
     goroutine w t \<noteq> Inl p"
proof (induction arbitrary: r rule: run_goroutines.induct)
  case (all_done devices)
  then show ?case by simp
next
  case (offline t' pending devices res)
  show ?case
  proof (cases "t = t'")
    case True
    then show ?thesis using offline.hyps(2) by simp
  next
    case False
    then have "t \<in> set (remove1 t' pending)" using offline.prems(2) by simp
    then show ?thesis using offline.IH[OF offline.prems(1)] by blast
  qed
next
  case (online t' pending d devices res)
  show ?case
  proof (cases "t = t'")
    case True
    then show ?thesis using online.hyps(2) by simp
  next
    case False
    then have "t \<in> set (remove1 t' pending)" using online.prems(2) by simp
    then show ?thesis using online.IH[OF online.prems(1)] by blast
  qed
next
  case (crash t pending p devices)
  then show ?case by simp
qed

lemma run_goroutines_in_order:
  "(\<And>t p. t \<in> set ts \<Longrightarrow> goroutine w t \<noteq> Inl p) \<Longrightarrow>
     run_goroutines w ts devices (Inr (devices @ appended w ts))"
proof (induction ts arbitrary: devices)
  case Nil
  then show ?case by (simp add: run_goroutines.all_done)
next
  case (Cons t ts)
  have ih: "run_goroutines w ts ds (Inr (ds @ appended w ts))" for ds
    using Cons.IH Cons.prems by simp
  show ?case
  proof (cases "goroutine w t")
    case (Inl p)
    then show ?thesis using Cons.prems[of t p] by simp
  next
    case (Inr out)
    show ?thesis
    proof (cases out)
      case None
      have g: "goroutine w t = Inr None" using Inr None by simp
      have "run_goroutines w (remove1 t (t # ts)) devices (Inr (devices @ appended w ts))"
        using ih by simp
      then have "run_goroutines w (t # ts) devices (Inr (devices @ appended w ts))"
        by (rule run_goroutines.offline[rotated 2]) (simp_all add: g)
      then show ?thesis using g by simp
    next
      case (Some d)
      have g: "goroutine w t = Inr (Some d)" using Inr Some by simp
      have "run_goroutines w (remove1 t (t # ts)) (devices @ [d])
          (Inr ((devices @ [d]) @ appended w ts))"
        using ih[of "devices @ [d]"] by (simp del: append_assoc)
      then have "run_goroutines w (t # ts) devices (Inr ((devices @ [d]) @ appended w ts))"
        by (rule run_goroutines.online[rotated 2]) (simp_all add: g)
      then show ?thesis using g by simp
    qed
  qed
qed

lemma appended_IP:
  "map Device.IP (appended w ts) = filter (\<lambda>t. appends w t \<noteq> []) ts"
proof (induction ts)
  case Nil
  then show ?case by simp
next
  case (Cons t ts)
  show ?case
    using appends_cases[of w t] Cons.IH goroutine_Some(1)[of w t] by auto
qed

lemma appended_set:
  "d \<in> set (appended w ts) \<Longrightarrow> \<exists>t \<in> set ts. goroutine w t = Inr (Some d)"
proof (induction ts)
  case Nil
  then show ?case by simp
next
  case (Cons t ts)
  then show ?case using appends_cases[of w t] by auto
qed

text \<open>Every order of the appends is the result of some run.\<close>

lemma appends_Nil_iff:
  "appends w t = [] \<longleftrightarrow> goroutine w t = Inr None \<or> (\<exists>p. goroutine w t = Inl p)"
  by (cases "goroutine w t") (auto simp: appends_def split: option.splits)

lemma run_goroutines_any_order:
  assumes "\<And>t p. t \<in> set ts \<Longrightarrow> goroutine w t \<noteq> Inl p"
    and "mset new = mset (appended w ts)"
  shows "run_goroutines w ts devices (Inr (devices @ new))"
  using assms
proof (induction "length ts" arbitrary: ts devices new)
  case 0
  then show ?case by (simp add: run_goroutines.all_done)
next
  case (Suc k)
  then obtain t0 ts0 where ts: "ts = t0 # ts0" by (cases ts) auto
  show ?case
  proof (cases new)
    case Nil
    then have "appended w ts = []" using Suc.prems(2) by simp
    then have "appends w t0 = []" using ts by simp
    then have g: "goroutine w t0 = Inr None"
      using Suc.prems(1)[of t0] ts by (auto simp: appends_Nil_iff)
    have "run_goroutines w (remove1 t0 ts) devices (Inr (devices @ new))"
    proof (rule Suc.hyps(1))
      show "k = length (remove1 t0 ts)" using Suc.hyps(2) ts by simp
      show "mset new = mset (appended w (remove1 t0 ts))" using Suc.prems(2) ts g by simp
      show "goroutine w t \<noteq> Inl p" if "t \<in> set (remove1 t0 ts)" for t p
        using that Suc.prems(1)[of t p] ts by simp
    qed
    then show ?thesis
      by (rule run_goroutines.offline[rotated 2]) (simp_all add: ts g)
  next
    case (Cons d new')
    then have "d \<in> set (appended w ts)"
      using Suc.prems(2) by (metis list.set_intros(1) mset_eq_setD)
    then obtain t where t: "t \<in> set ts" "goroutine w t = Inr (Some d)"
      using appended_set by blast
    have m: "mset new' = mset (appended w (remove1 t ts))"
      using Suc.prems(2) appended_remove1[OF t(1), of w] t(2) Cons by simp
    have "run_goroutines w (remove1 t ts) (devices @ [d]) (Inr ((devices @ [d]) @ new'))"
    proof (rule Suc.hyps(1))
      show "k = length (remove1 t ts)" using Suc.hyps(2) t(1) by (simp add: length_remove1)
      show "mset new' = mset (appended w (remove1 t ts))" by (rule m)
      show "goroutine w t' \<noteq> Inl p" if "t' \<in> set (remove1 t ts)" for t' p
        using that Suc.prems(1)[of t' p] by (meson notin_set_remove1)
    qed
    then have "run_goroutines w ts devices (Inr ((devices @ [d]) @ new'))"
      by (rule run_goroutines.online[rotated 2]) (simp_all add: t)
    then show ?thesis using Cons by simp
  qed
qed

lemma sorted_wrt_less_devices:
  "sorted_wrt (\<lambda>a b. \<not> less_devices b a) r = sorted (map final_octet r)"
  by (simp add: sorted_map less_devices_def final_octet_def not_less)

lemma sorted_perm_unique:
  assumes "mset xs = mset ys" "sorted (map f xs)" "sorted (map f ys)" "distinct (map f xs)"
  shows "xs = ys"
proof -
  have "mset (map f xs) = mset (map f ys)" using assms(1) by simp
  then have dy: "distinct (map f ys)" using assms(4) by (metis mset_eq_imp_distinct_iff)
  have s: "set xs = set ys" using assms(1) by (rule mset_eq_setD)
  have "inj_on f (set xs \<union> set ys)" using assms(4) s by (simp add: distinct_map)
  then show ?thesis using assms(2,4) assms(3) dy s by (rule map_sorted_distinct_set_unique)
qed

lemma scanSubnet_Inr:
  assumes "scanSubnet w n (Inr r)"
  shows "\<exists>ts. candidates n = Some (Inr ts) \<and> mset r = mset (appended w ts) \<and>
            sorted (map final_octet r) \<and> (\<forall>t \<in> set ts. \<forall>p. goroutine w t \<noteq> Inl p)"
  using assms
proof (cases rule: scanSubnet.cases)
  case (returns targets devices)
  from run_goroutines_Inr[OF returns(2) refl] have "mset devices = mset (appended w targets)"
    by auto
  moreover have "\<forall>t \<in> set targets. \<forall>p. goroutine w t \<noteq> Inl p"
    using run_goroutines_no_panic[OF returns(2) refl] by blast
  ultimately show ?thesis using returns(1,4)
    by (auto simp: sort_Slice_def sorted_wrt_less_devices)
qed

lemma scanSubnet_Inl:
  assumes "scanSubnet w n (Inl p)" "candidates n = Some (Inr ts)"
    and "\<And>t. t \<in> set ts \<Longrightarrow> 3 < length t"
  shows "\<exists>t \<in> set ts. goroutine w t = Inl p"
  using assms(1)
proof (cases rule: scanSubnet.cases)
  case loop_panic
  then show ?thesis using assms(2) by simp
next
  case (goroutine_panic targets)
  then show ?thesis using assms(2) run_goroutines_Inl[OF goroutine_panic(2) refl] by simp
next
  case (sort_panic targets devices)
  then have ts: "targets = ts" using assms(2) by simp
  from run_goroutines_Inr[OF sort_panic(3) refl]
  have m: "mset devices = mset (appended w ts)" using ts by auto
  have "3 < length (Device.IP d)" if "d \<in> set devices" for d
  proof -
    have "d \<in> set (appended w ts)" using that m by (metis mset_eq_setD)
    then obtain t where "t \<in> set ts" "goroutine w t = Inr (Some d)"
      using appended_set by blast
    then show ?thesis using assms(3) goroutine_Some(1) by auto
  qed
  then show ?thesis using sort_panic(5) by (simp add: list_all_iff)
qed

lemma scanSubnet_returns_sorted:
  assumes "candidates n = Some (Inr ts)" "\<And>t p. t \<in> set ts \<Longrightarrow> goroutine w t \<noteq> Inl p"
    and "\<And>t. t \<in> set ts \<Longrightarrow> 3 < length t"
    and "mset r = mset (appended w ts)" "sorted (map final_octet r)"
  shows "scanSubnet w n (Inr r)"
proof -
  have run: "run_goroutines w ts [] (Inr ([] @ appended w ts))"
    using assms(2) by (rule run_goroutines_in_order)
  have "list_all (\<lambda>d. 3 < length (Device.IP d)) (appended w ts)"
    unfolding list_all_iff
  proof
    fix d assume "d \<in> set (appended w ts)"
    then obtain t where "t \<in> set ts" "goroutine w t = Inr (Some d)"
      using appended_set by blast
    then show "3 < length (Device.IP d)" using assms(3) goroutine_Some(1) by auto
  qed
  moreover have "sort_Slice less_devices (appended w ts) r"
    using assms(4,5) by (simp add: sort_Slice_def sorted_wrt_less_devices)
  ultimately show ?thesis
    using scanSubnet.returns[OF assms(1), of w "appended w ts" r] run by simp
qed

lemma candidates_members:
  assumes "ipv4_net n" "candidates n = Some (Inr cs)" "c \<in> set cs"
  shows "length c = 4" "Contains n c" "keep c" "IP_Mask c (Mask n) = network_address n"
proof -
  from assms(1) obtain p where p: "To4 (IPNet.IP n) = Some p" and m: "length (Mask n) = 4"
    by (auto simp: ipv4_net_def IPv4len_def)
  have nz: "Mask n \<noteq> [0, 0, 0, 0]"
    using assms(2) scanSubnet_loop_zero_mask[OF p _ network_address_ipv4(2)[OF p m]]
      network_address_ipv4(3)[OF p m]
    by (auto simp: candidates_def Let_def network_address_def[symmetric])
  from candidates_shape[OF assms(1) nz] assms(2) obtain d where
    d: "\<And>i. i < d \<Longrightarrow> Contains n ((incrementIP ^^ i) (network_address n))"
      "cs = filter keep (map (\<lambda>i. (incrementIP ^^ i) (network_address n)) [0..<d])"
    by auto
  from assms(3) d(2) obtain i where i: "i < d" "c = (incrementIP ^^ i) (network_address n)"
    and k: "keep c" by auto
  show "keep c" by (rule k)
  show l: "length c = 4" by (simp add: i(2) network_address_ipv4(2)[OF p m])
  show c: "Contains n c" using d(1)[OF i(1)] i(2) by simp
  show "IP_Mask c (Mask n) = network_address n"
    using c Contains_ipv4[OF p m l] network_address_ipv4(1)[OF p m] by simp
qed

lemma candidates_distinct:
  assumes "ipv4_net n" "candidates n = Some (Inr cs)"
  shows "distinct cs"
proof -
  from assms(1) obtain p where p: "To4 (IPNet.IP n) = Some p" and m: "length (Mask n) = 4"
    by (auto simp: ipv4_net_def IPv4len_def)
  have nz: "Mask n \<noteq> [0, 0, 0, 0]"
    using assms(2) scanSubnet_loop_zero_mask[OF p _ network_address_ipv4(2)[OF p m]]
      network_address_ipv4(3)[OF p m]
    by (auto simp: candidates_def Let_def network_address_def[symmetric])
  from candidates_shape[OF assms(1) nz] assms(2) obtain d where
    d: "d < 2 ^ 32"
      "cs = filter keep (map (\<lambda>i. (incrementIP ^^ i) (network_address n)) [0..<d])"
    by auto
  have "inj_on (\<lambda>i. (incrementIP ^^ i) (network_address n)) (set [0..<d])"
  proof (rule inj_onI)
    fix i j assume "i \<in> set [0..<d]" "j \<in> set [0..<d]"
      and e: "(incrementIP ^^ i) (network_address n) = (incrementIP ^^ j) (network_address n)"
    then have "i < 2 ^ 32" "j < 2 ^ 32" using d(1) by simp_all
    then show "i = j" using funpow_inj[OF network_address_ipv4(2)[OF p m] _ _ e] by simp
  qed
  then have "distinct (map (\<lambda>i. (incrementIP ^^ i) (network_address n)) [0..<d])"
    by (simp add: distinct_map)
  then show ?thesis unfolding d(2) by (rule distinct_filter)
qed

section \<open>Example networks\<close>

lemma ipv4_lan30: "ipv4_net lan30"
  by (simp add: ipv4_net_def lan30_def To4_def IPv4len_def IPv6len_def isZeros_def)

lemma ipv4_lan24: "ipv4_net lan24"
  by (simp add: ipv4_net_def lan24_def To4_def IPv4len_def)

lemma ipv4_net0: "ipv4_net net0"
  by (simp add: ipv4_net_def net0_def To4_def IPv4len_def)

lemma candidates_lan30:
  "candidates lan30 =
     Some (Inr [[192, 168, 1, 4], [192, 168, 1, 5], [192, 168, 1, 6], [192, 168, 1, 7]])"
  by code_simp

lemma network_address_lan30: "network_address lan30 = [192, 168, 1, 4]"
  by code_simp

lemma candidates_lan24:
  "candidates lan24 = Some (Inr (map (\<lambda>i. [192, 168, 1, of_nat i]) [1..<255]))"
  by (rule candidates_24[of _ _ _ _ 0]) (simp_all add: lan24_def To4_self)

section \<open>The sweep\<close>

lemma scanSubnet_deterministic:
  assumes c: "candidates n = Some (Inr ts)"
    and len: "\<And>t. t \<in> set ts \<Longrightarrow> 3 < length t"
    and np: "\<And>t p. t \<in> set ts \<Longrightarrow> goroutine w t \<noteq> Inl p"
    and m: "mset r0 = mset (appended w ts)"
    and s: "sorted (map final_octet r0)" and d: "distinct (map final_octet r0)"
  shows "scanSubnet w n res = (res = Inr r0)"
proof
  assume "res = Inr r0"
  then show "scanSubnet w n res"
    using scanSubnet_returns_sorted[OF c np len m s] by simp
next
  assume a: "scanSubnet w n res"
  show "res = Inr r0"
  proof (cases res)
    case (Inl p)
    then show ?thesis using scanSubnet_Inl[OF _ c len, of w p] a np by blast
  next
    case (Inr r)
    then obtain ts' where "candidates n = Some (Inr ts')" "mset r = mset (appended w ts')"
      "sorted (map final_octet r)"
      using scanSubnet_Inr[of w n r] a by blast
    then have "mset r0 = mset r" "sorted (map final_octet r)" using c m by simp_all
    then have "r0 = r" using s d by (intro sorted_perm_unique[of r0 r final_octet])
    then show ?thesis using Inr by simp
  qed
qed

lemma appended_small:
  "appended small_world [[192, 168, 1, 4], [192, 168, 1, 5], [192, 168, 1, 6], [192, 168, 1, 7]] =
     [\<lparr>Device.IP = [192, 168, 1, 5], Online = True, Hostname = []\<rparr>,
      \<lparr>Device.IP = [192, 168, 1, 6], Online = True, Hostname = ''printer.lan''\<rparr>]"
  by code_simp

lemma no_panic_small: "goroutine small_world t \<noteq> Inl p"
  by (simp add: goroutine_def pingHost_def resolveHostname_def small_world_def Run_def
      Command_def Success_def Let_def split: sum.splits if_splits)

lemma appended_fake:
  "appended fake_world (map (\<lambda>i. [192, 168, 1, of_nat i]) [1..<255]) =
     [\<lparr>Device.IP = [192, 168, 1, 1], Online = True, Hostname = ''gateway.lan''\<rparr>,
      \<lparr>Device.IP = [192, 168, 1, 50], Online = True, Hostname = []\<rparr>,
      \<lparr>Device.IP = [192, 168, 1, 254], Online = True, Hostname = []\<rparr>]"
  by code_simp

lemma no_panic_fake: "goroutine fake_world t \<noteq> Inl p"
  by (simp add: goroutine_def pingHost_def resolveHostname_def fake_world_def Run_def
      Command_def Success_def Let_def split: sum.splits if_splits)

lemma goroutine_quiet: "goroutine quiet_world t = Inr None"
  by (simp add: goroutine_def pingHost_def quiet_world_def Run_def
      Command_def Success_def Let_def)

lemma scanSubnet_small:
  "scanSubnet small_world lan30 res =
     (res = Inr [\<lparr>Device.IP = [192, 168, 1, 5], Online = True, Hostname = []\<rparr>,
                 \<lparr>Device.IP = [192, 168, 1, 6], Online = True, Hostname = ''printer.lan''\<rparr>])"
proof (rule scanSubnet_deterministic[OF candidates_lan30])
  fix t :: IP
  assume "t \<in> set [[192, 168, 1, 4], [192, 168, 1, 5], [192, 168, 1, 6], [192, 168, 1, 7]]"
  then show "3 < length t" by auto
next
  show "mset [\<lparr>Device.IP = [192, 168, 1, 5], Online = True, Hostname = []\<rparr>,
      \<lparr>Device.IP = [192, 168, 1, 6], Online = True, Hostname = ''printer.lan''\<rparr>] =
    mset (appended small_world
      [[192, 168, 1, 4], [192, 168, 1, 5], [192, 168, 1, 6], [192, 168, 1, 7]])"
    by (simp only: appended_small)
qed (simp_all add: no_panic_small final_octet_def)

lemma pingHost_exited:
  "run_process w = (\<lambda>args. Some (Exited st)) \<Longrightarrow> pingHost w host = Inr (st = 0)"
  by (simp add: pingHost_def Run_def Command_def Success_def Let_def)

lemma ipv4_lan23: "ipv4_net lan23"
  by (simp add: ipv4_net_def lan23_def To4_def IPv4len_def)

lemma appended_twin:
  "map_option (map_sum id (appended twin_world)) (candidates lan23) =
     Some (Inr [\<lparr>Device.IP = [10, 0, 0, 5], Online = True, Hostname = []\<rparr>,
                \<lparr>Device.IP = [10, 0, 1, 5], Online = True, Hostname = []\<rparr>])"
  by code_simp

lemma no_panic_twin: "goroutine twin_world t \<noteq> Inl p"
  by (simp add: goroutine_def pingHost_def resolveHostname_def twin_world_def Run_def
      Command_def Success_def Let_def split: sum.splits if_splits)

lemma scanSubnet_twin:
  "scanSubnet twin_world lan23
     (Inr [\<lparr>Device.IP = [10, 0, 0, 5], Online = True, Hostname = []\<rparr>,
           \<lparr>Device.IP = [10, 0, 1, 5], Online = True, Hostname = []\<rparr>])"
  "scanSubnet twin_world lan23
     (Inr [\<lparr>Device.IP = [10, 0, 1, 5], Online = True, Hostname = []\<rparr>,
           \<lparr>Device.IP = [10, 0, 0, 5], Online = True, Hostname = []\<rparr>])"
proof -
  from appended_twin obtain ts where ts: "candidates lan23 = Some (Inr ts)"
    "appended twin_world ts = [\<lparr>Device.IP = [10, 0, 0, 5], Online = True, Hostname = []\<rparr>,
                               \<lparr>Device.IP = [10, 0, 1, 5], Online = True, Hostname = []\<rparr>]"
    by (cases "candidates lan23"; cases "the (candidates lan23)") auto
  have len: "3 < length t" if "t \<in> set ts" for t
    using candidates_members(1)[OF ipv4_lan23 ts(1) that] by simp
  note rule = scanSubnet_returns_sorted[OF ts(1) no_panic_twin len]
  show "scanSubnet twin_world lan23
     (Inr [\<lparr>Device.IP = [10, 0, 0, 5], Online = True, Hostname = []\<rparr>,
           \<lparr>Device.IP = [10, 0, 1, 5], Online = True, Hostname = []\<rparr>])"
    by (rule rule) (simp_all add: ts(2) final_octet_def)
  show "scanSubnet twin_world lan23
     (Inr [\<lparr>Device.IP = [10, 0, 1, 5], Online = True, Hostname = []\<rparr>,
           \<lparr>Device.IP = [10, 0, 0, 5], Online = True, Hostname = []\<rparr>])"
    by (rule rule) (simp_all add: ts(2) final_octet_def)
qed

lemma scanSubnet_quiet: "scanSubnet quiet_world lan30 (Inr [])"
proof (rule scanSubnet_returns_sorted[OF candidates_lan30])
  fix t :: IP
  assume "t \<in> set [[192, 168, 1, 4], [192, 168, 1, 5], [192, 168, 1, 6], [192, 168, 1, 7]]"
  then show "3 < length t" by auto
qed (simp_all add: goroutine_quiet)

lemma scanSubnet_not_started:
  assumes "candidates n = Some (Inr ts)" "ts \<noteq> []"
  shows "scanSubnet (w\<lparr>run_process := \<lambda>args. None\<rparr>) n res =
           (res = Inl NilPointerDereference)"
proof -
  let ?w = "w\<lparr>run_process := \<lambda>args. None\<rparr>"
  have g: "goroutine ?w t = Inl NilPointerDereference" for t
    by (simp add: goroutine_def pingHost_def Run_def Command_def Success_def Let_def)
  obtain t where t: "t \<in> set ts" using assms(2) by (cases ts) auto
  show ?thesis
  proof
    assume "res = Inl NilPointerDereference"
    then show "scanSubnet ?w n res"
      using scanSubnet.goroutine_panic[OF assms(1) run_goroutines.crash[OF t g]] by simp
  next
    assume "scanSubnet ?w n res"
    then show "res = Inl NilPointerDereference"
    proof (cases rule: scanSubnet.cases)
      case (loop_panic p)
      then show ?thesis using assms(1) by simp
    next
      case (goroutine_panic targets p)
      then show ?thesis using run_goroutines_Inl[OF goroutine_panic(3) refl] g by auto
    next
      case (sort_panic targets devices)
      then have "targets = ts" using assms(1) by simp
      then show ?thesis using run_goroutines_no_panic[OF sort_panic(3) refl] t g by blast
    next
      case (returns targets devices result)
      then have "targets = ts" using assms(1) by simp
      then show ?thesis using run_goroutines_no_panic[OF returns(3) refl] t g by blast
    qed
  qed
qed

text \<open>
  An empty first name would make \<open>resolveHostname\<close> panic; \<open>net.LookupAddr\<close> does not
  return one.
\<close>

lemma resolveHostname_empty_name:
  "LookupAddr w ip = ([] # names, None) \<Longrightarrow> resolveHostname w ip = Inl IndexOutOfRange"
  by (simp add: resolveHostname_def)

section \<open>The loop after a number of iterations\<close>

lemma map_funpow_Suc:
  "map (\<lambda>i. (incrementIP ^^ i) ip) [0..<Suc d] =
      ip # map (\<lambda>i. (incrementIP ^^ i) (incrementIP ip)) [0..<d]"
  by (simp add: upt_conv_Cons map_Suc_upt[symmetric] funpow_swap1 del: upt_Suc)

lemma steps_inside:
  assumes "\<And>i. i < k \<Longrightarrow> Contains n ((incrementIP ^^ i) ip)" and "length ip = 4"
  shows "scanSubnet_loop_steps k n ip launched =
     launched @ filter keep (map (\<lambda>i. (incrementIP ^^ i) ip) [0..<k])"
  using assms
proof (induction k arbitrary: ip launched)
  case 0
  then show ?case by simp
next
  case (Suc k)
  have c: "Contains n ip" using Suc.prems(1)[of 0] by simp
  have ih: "scanSubnet_loop_steps k n (incrementIP ip) l =
     l @ filter keep (map (\<lambda>i. (incrementIP ^^ i) (incrementIP ip)) [0..<k])" for l
  proof (rule Suc.IH)
    fix i assume "i < k"
    then show "Contains n ((incrementIP ^^ i) (incrementIP ip))"
      using Suc.prems(1)[of "Suc i"] by (simp add: funpow_swap1)
  next
    show "length (incrementIP ip) = 4" using Suc.prems(2) by simp
  qed
  have kp: "keep ip = (\<not> (ip ! 3 = 0 \<or> ip ! 3 = 255))" by (simp add: keep_def)
  show ?case
    by (simp add: c Suc.prems(2) ih map_funpow_Suc kp del: upt_Suc)
qed

lemma steps_exit:
  assumes "\<And>i. i < d \<Longrightarrow> Contains n ((incrementIP ^^ i) ip)"
    and "\<not> Contains n ((incrementIP ^^ d) ip)" and "length ip = 4" and "d \<le> k"
  shows "scanSubnet_loop_steps k n ip launched =
     launched @ filter keep (map (\<lambda>i. (incrementIP ^^ i) ip) [0..<d])"
  using assms
proof (induction d arbitrary: k ip launched)
  case 0
  then show ?case by (cases k) simp_all
next
  case (Suc d)
  obtain k' where k: "k = Suc k'" "d \<le> k'" using Suc.prems(4) by (cases k) auto
  have c: "Contains n ip" using Suc.prems(1)[of 0] by simp
  have ih: "scanSubnet_loop_steps k' n (incrementIP ip) l =
     l @ filter keep (map (\<lambda>i. (incrementIP ^^ i) (incrementIP ip)) [0..<d])" for l
  proof (rule Suc.IH)
    fix i assume "i < d"
    then show "Contains n ((incrementIP ^^ i) (incrementIP ip))"
      using Suc.prems(1)[of "Suc i"] by (simp add: funpow_swap1)
  next
    show "\<not> Contains n ((incrementIP ^^ d) (incrementIP ip))"
      using Suc.prems(2) by (simp add: funpow_swap1)
  next
    show "length (incrementIP ip) = 4" using Suc.prems(3) by simp
  next
    show "d \<le> k'" by (rule k(2))
  qed
  have kp: "keep ip = (\<not> (ip ! 3 = 0 \<or> ip ! 3 = 255))" by (simp add: keep_def)
  show ?case
    unfolding k(1)
    by (simp add: c Suc.prems(3) ih map_funpow_Suc kp del: upt_Suc)
qed


lemma distinct_funpow_upto:
  assumes "length ip = 4" "m \<le> 2 ^ 32"
  shows "distinct (filter keep (map (\<lambda>i. (incrementIP ^^ i) ip) [0..<m]))"
proof -
  have "inj_on (\<lambda>i. (incrementIP ^^ i) ip) (set [0..<m])"
  proof (rule inj_onI)
    fix i j assume "i \<in> set [0..<m]" "j \<in> set [0..<m]"
      and e: "(incrementIP ^^ i) ip = (incrementIP ^^ j) ip"
    then have "i < 2 ^ 32" "j < 2 ^ 32" using assms(2) by simp_all
    then show "i = j" using funpow_inj[OF assms(1) _ _ e] by simp
  qed
  then have "distinct (map (\<lambda>i. (incrementIP ^^ i) ip) [0..<m])"
    by (simp add: distinct_map)
  then show ?thesis by (rule distinct_filter)
qed

lemma launched_after_start:
  assumes "To4 (IPNet.IP n) = Some p" "length (Mask n) = 4"
  shows "launched_after k n = scanSubnet_loop_steps k n (network_address n) []"
  using network_address_ipv4(3)[OF assms]
  by (simp add: launched_after_def Let_def network_address_def[symmetric])

lemma launched_after_distinct:
  assumes "ipv4_net n" "Mask n \<noteq> [0, 0, 0, 0]"
  shows "distinct (launched_after k n)"
proof -
  from assms(1) obtain p where p: "To4 (IPNet.IP n) = Some p" and m: "length (Mask n) = 4"
    by (auto simp: ipv4_net_def IPv4len_def)
  note na = network_address_ipv4[OF p m]
  obtain d where d: "d < 2 ^ 32"
      "\<And>i. i < d \<Longrightarrow> Contains n ((incrementIP ^^ i) (network_address n))"
      "\<not> Contains n ((incrementIP ^^ d) (network_address n))"
    using first_exit[OF p m assms(2) na(2)] by blast
  show ?thesis
  proof (cases "d \<le> k")
    case True
    have "launched_after k n =
        [] @ filter keep (map (\<lambda>i. (incrementIP ^^ i) (network_address n)) [0..<d])"
      unfolding launched_after_start[OF p m] using d(2,3) na(2) True by (rule steps_exit)
    then show ?thesis using distinct_funpow_upto[OF na(2), of d] d(1) by simp
  next
    case False
    then have "\<And>i. i < k \<Longrightarrow> Contains n ((incrementIP ^^ i) (network_address n))"
      using d(2) by simp
    then have "launched_after k n =
        [] @ filter keep (map (\<lambda>i. (incrementIP ^^ i) (network_address n)) [0..<k])"
      unfolding launched_after_start[OF p m] using na(2) by (rule steps_inside)
    then show ?thesis using distinct_funpow_upto[OF na(2), of k] d(1) False by simp
  qed
qed

lemma launched_after_candidates:
  assumes "ipv4_net n" "candidates n = Some (Inr cs)"
  shows "\<exists>d. \<forall>k \<ge> d. launched_after k n = cs"
proof -
  from assms(1) obtain p where p: "To4 (IPNet.IP n) = Some p" and m: "length (Mask n) = 4"
    by (auto simp: ipv4_net_def IPv4len_def)
  note na = network_address_ipv4[OF p m]
  have nz: "Mask n \<noteq> [0, 0, 0, 0]"
    using assms(2) scanSubnet_loop_zero_mask[OF p _ na(2)] na(3)
    by (auto simp: candidates_def Let_def network_address_def[symmetric])
  from candidates_shape[OF assms(1) nz] assms(2) obtain d where
    d: "\<And>i. i < d \<Longrightarrow> Contains n ((incrementIP ^^ i) (network_address n))"
      "\<not> Contains n ((incrementIP ^^ d) (network_address n))"
      "cs = filter keep (map (\<lambda>i. (incrementIP ^^ i) (network_address n)) [0..<d])"
    by auto
  have "launched_after k n = cs" if "d \<le> k" for k
    unfolding launched_after_start[OF p m] d(3)
    using steps_exit[OF d(1,2) na(2) that, of "[]"] by simp
  then show ?thesis by blast
qed

lemma launched_after_zero_mask:
  assumes "ipv4_net n" "Mask n = [0, 0, 0, 0]"
  shows "launched_after k n = filter keep (map (\<lambda>i. (incrementIP ^^ i) [0, 0, 0, 0]) [0..<k])"
proof -
  from assms(1) obtain p where p: "To4 (IPNet.IP n) = Some p"
    by (auto simp: ipv4_net_def IPv4len_def)
  have m: "length (Mask n) = 4" by (simp add: assms(2))
  note na = network_address_ipv4[OF p m]
  obtain p0 p1 p2 p3 where "p = [p0, p1, p2, p3]" using To4_length[OF p] by (rule length4E)
  then have base: "network_address n = [0, 0, 0, 0]"
    by (simp add: na(1) assms(2) IP_Mask4)
  have "scanSubnet_loop_steps k n [0, 0, 0, 0] [] =
      [] @ filter keep (map (\<lambda>i. (incrementIP ^^ i) [0, 0, 0, 0]) [0..<k])"
  proof (rule steps_inside)
    fix i
    show "Contains n ((incrementIP ^^ i) [0, 0, 0, 0])"
      by (rule Contains_zero_mask[OF p assms(2)]) simp
  qed simp
  then show ?thesis unfolding launched_after_start[OF p m] base by simp
qed

lemma launched_after_repeats:
  assumes "ipv4_net n" "Mask n = [0, 0, 0, 0]"
  shows "\<not> distinct (launched_after (2 ^ 32 + 2) n)"
proof
  let ?f = "\<lambda>i. (incrementIP ^^ i) [0, 0, 0, 0 :: byte]"
  let ?k = "2 ^ 32 + 2 :: nat"
  assume "distinct (launched_after ?k n)"
  then have "distinct (map ?f (filter (keep \<circ> ?f) [0..<?k]))"
    by (simp add: launched_after_zero_mask[OF assms] filter_map)
  then have inj: "inj_on ?f (set (filter (keep \<circ> ?f) [0..<?k]))"
    by (simp add: distinct_map)
  have one: "?f 1 = [0, 0, 0, 1]" by (simp add: incrementIP4)
  have "?f (2 ^ 32 + 1) = (incrementIP ^^ (2 ^ 32)) (?f 1)"
    by (simp only: funpow_add o_apply)
  also have "\<dots> = ?f 1" by (rule incrementIP_cycle) simp
  finally have "?f (2 ^ 32 + 1) = ?f 1" .
  moreover have "keep (?f 1)" unfolding one by (simp add: keep_def)
  moreover note inj
  ultimately have "(2 ^ 32 + 1 :: nat) = 1"
    by (auto dest!: inj_onD[where x = "2 ^ 32 + 1" and y = 1])
  then show False by simp
qed


lemma candidates_zero_mask:
  assumes "ipv4_net n" "Mask n = [0, 0, 0, 0]"
  shows "candidates n = None"
proof -
  from assms(1) obtain p where p: "To4 (IPNet.IP n) = Some p"
    by (auto simp: ipv4_net_def)
  have m: "length (Mask n) = 4" by (simp add: assms(2))
  note na = network_address_ipv4[OF p m]
  have "candidates n = scanSubnet_loop n (network_address n) []"
    by (simp add: candidates_def Let_def na(3) network_address_def[symmetric])
  then show ?thesis using scanSubnet_loop_zero_mask[OF p assms(2) na(2)] by simp
qed

lemma scanSubnet_needs_candidates:
  assumes "scanSubnet w n res"
  shows "candidates n \<noteq> None"
  using assms by (cases rule: scanSubnet.cases) simp_all

lemma pingHost_quiet: "pingHost quiet_world h = Inr False"
  by (simp add: pingHost_def quiet_world_def Run_def Command_def Success_def Let_def)

section \<open>The claims\<close>

text \<open>
  Claim C1. The network 192.168.1.0 with the mask 255.255.255.0, in a world where
  exactly 192.168.1.1, 192.168.1.50 and 192.168.1.254 answer the ping and the reverse
  lookup knows only 192.168.1.1, as gateway.lan: a call of \<open>scanSubnet\<close> ends in one
  way only, returning the devices .1 (gateway.lan), .50 and .254 (both without a name)
  in this order.
\<close>

theorem scan_end_to_end:
  "scanSubnet fake_world lan24 res =
     (res = Inr [\<lparr>Device.IP = [192, 168, 1, 1], Online = True, Hostname = ''gateway.lan''\<rparr>,
                 \<lparr>Device.IP = [192, 168, 1, 50], Online = True, Hostname = []\<rparr>,
                 \<lparr>Device.IP = [192, 168, 1, 254], Online = True, Hostname = []\<rparr>])"
proof (rule scanSubnet_deterministic[OF candidates_lan24])
  fix t :: IP
  assume "t \<in> set (map (\<lambda>i. [192, 168, 1, of_nat i]) [1..<255])"
  then show "3 < length t" by auto
next
  show "mset [\<lparr>Device.IP = [192, 168, 1, 1], Online = True, Hostname = ''gateway.lan''\<rparr>,
      \<lparr>Device.IP = [192, 168, 1, 50], Online = True, Hostname = []\<rparr>,
      \<lparr>Device.IP = [192, 168, 1, 254], Online = True, Hostname = []\<rparr>] =
    mset (appended fake_world (map (\<lambda>i. [192, 168, 1, of_nat i]) [1..<255]))"
    by (simp only: appended_fake)
qed (simp_all add: no_panic_fake final_octet_def)

theorem scan_end_to_end_witness:
  "scanSubnet fake_world lan24
     (Inr [\<lparr>Device.IP = [192, 168, 1, 1], Online = True, Hostname = ''gateway.lan''\<rparr>,
           \<lparr>Device.IP = [192, 168, 1, 50], Online = True, Hostname = []\<rparr>,
           \<lparr>Device.IP = [192, 168, 1, 254], Online = True, Hostname = []\<rparr>])"
  using scan_end_to_end by simp

text \<open>
  Claim C2. A network with the mask 255.255.255.0 has 256 addresses, and the loop skips
  the two with final octet 0 and 255: the enumeration produces 254 addresses (not 253),
  those with final octets 1 to 254.
\<close>

theorem candidates_24_count:
  assumes "ipv4_net n" "Mask n = [255, 255, 255, 0]"
  shows "\<exists>cs. candidates n = Some (Inr cs) \<and> length cs = 254"
proof -
  from assms(1) obtain p where p: "To4 (IPNet.IP n) = Some p"
    by (auto simp: ipv4_net_def)
  obtain a b c e where "p = [a, b, c, e]" using To4_length[OF p] by (rule length4E)
  then have "candidates n = Some (Inr (map (\<lambda>i. [a, b, c, of_nat i]) [1..<255]))"
    using p assms(2) by (intro candidates_24) simp_all
  then show ?thesis by simp
qed

theorem candidates_24_count_witness:
  "ipv4_net lan24 \<and> Mask lan24 = [255, 255, 255, 0] \<and>
   (\<exists>cs. candidates lan24 = Some (Inr cs) \<and> length cs = 254)"
  using candidates_24_count[OF ipv4_lan24] ipv4_lan24 by (simp add: lan24_def)

theorem candidates_24_count_counterexample:
  "map_option (map_sum id length) (candidates lan24) = Some (Inr 254) \<and>
   map_option (map_sum id length) (candidates lan24) \<noteq> Some (Inr 253)"
  by (simp add: candidates_lan24)

text \<open>
  Claim C3. Every address the enumeration produces lies in the network (masking it gives
  the network address) and has a final octet other than 0 and 255. The test looks at the
  final octet only, so the address differs from the network address when that one ends in
  0 or 255; in 192.168.1.4/30 the network address 192.168.1.4 itself is produced.
\<close>

theorem candidates_contained:
  assumes "ipv4_net n" "candidates n = Some (Inr cs)" "c \<in> set cs"
  shows "Contains n c \<and> IP_Mask c (Mask n) = network_address n \<and>
         c ! 3 \<noteq> 0 \<and> c ! 3 \<noteq> 255 \<and>
         (network_address n ! 3 = 0 \<or> network_address n ! 3 = 255 \<longrightarrow> c \<noteq> network_address n)"
  using candidates_members[OF assms] by (auto simp: keep_def)

theorem candidates_contained_witness:
  "ipv4_net lan30 \<and>
   candidates lan30 =
     Some (Inr [[192, 168, 1, 4], [192, 168, 1, 5], [192, 168, 1, 6], [192, 168, 1, 7]]) \<and>
   Contains lan30 [192, 168, 1, 6] \<and>
   IP_Mask [192, 168, 1, 6] (Mask lan30) = network_address lan30"
  using candidates_contained[OF ipv4_lan30 candidates_lan30, of "[192, 168, 1, 6]"]
  by (simp add: ipv4_lan30 candidates_lan30)

theorem candidates_contained_counterexample:
  "candidates lan30 =
     Some (Inr [[192, 168, 1, 4], [192, 168, 1, 5], [192, 168, 1, 6], [192, 168, 1, 7]]) \<and>
   network_address lan30 = [192, 168, 1, 4]"
  by (simp add: candidates_lan30 network_address_lan30)

text \<open>
  Claim C4. \<open>pingHost\<close> is to return false for every failure of the probe. When the
  ping command cannot be started at all (the executable is missing or may not be
  executed), \<open>cmd.Run()\<close> leaves \<open>cmd.ProcessState\<close> nil and
  \<open>cmd.ProcessState.Success()\<close> panics: \<open>pingHost\<close> does not return there, on any
  operating system and for any host. A probe that runs and exits with a status other
  than 0 does give false (\<open>pingHost_exited\<close>), and a sweep with a probe that cannot
  start ends in the panic (\<open>scanSubnet_not_started\<close>).
\<close>

theorem pingHost_not_started:
  "pingHost (w\<lparr>run_process := \<lambda>args. None\<rparr>) host = Inl NilPointerDereference"
  by (simp add: pingHost_def Run_def Command_def Success_def Let_def)

theorem pingHost_not_started_witness:
  "pingHost (quiet_world\<lparr>run_process := \<lambda>args. None\<rparr>) ''192.168.1.1'' =
     Inl NilPointerDereference"
  using pingHost_not_started[of quiet_world "''192.168.1.1''"] by simp

text \<open>
  Claim C5. \<open>resolveHostname\<close> does not panic on what \<open>net.LookupAddr\<close> returns: it
  gives the empty string on an error or an empty list of names, and otherwise the first
  name, without its last byte when that is a dot. \<open>net.LookupAddr\<close> returns only names
  that are valid domain names (it drops the others and reports an error), so no name
  it returns is empty; that is the hypothesis on \<open>names\<close>.
\<close>

theorem resolveHostname_result:
  assumes "LookupAddr w ip = (names, err)" "\<forall>name \<in> set names. name \<noteq> []"
  shows "resolveHostname w ip =
     Inr (if err \<noteq> None \<or> names = [] then []
          else if last (hd names) = CHR ''.'' then butlast (hd names)
          else hd names)"
proof (cases "err \<noteq> None \<or> names = []")
  case True
  then show ?thesis using assms(1) by (auto simp: resolveHostname_def)
next
  case False
  then have n: "names \<noteq> []" and e: "err = None" by simp_all
  then have h: "names ! 0 = hd names" by (simp add: hd_conv_nth)
  have ne: "hd names \<noteq> []" using assms(2) n by simp
  then have l: "hd names ! (length (hd names) - Suc 0) = last (hd names)"
    by (simp add: last_conv_nth)
  have b: "take (length (hd names) - Suc 0) (hd names) = butlast (hd names)"
    by (simp add: butlast_conv_take)
  show ?thesis using assms(1) n e ne by (simp add: resolveHostname_def Let_def h l b)
qed

theorem resolveHostname_result_witness:
  "LookupAddr small_world ''192.168.1.6'' = ([''printer.lan.''], None) \<and>
   resolveHostname small_world ''192.168.1.6'' = Inr ''printer.lan'' \<and>
   resolveHostname small_world ''192.168.1.5'' = Inr []"
  using resolveHostname_result[of small_world "''192.168.1.6''" "[''printer.lan.'']" None]
    resolveHostname_result[of small_world "''192.168.1.5''" "[]" "Some ''no such host''"]
  by (simp add: small_world_def)

text \<open>
  Claim C6. Whatever the network and the world, a slice that \<open>scanSubnet\<close> returns is
  sorted by the final octet \<open>IP[3]\<close> of its devices, ascending.
\<close>

theorem scan_sorted_by_final_octet:
  assumes "scanSubnet w n (Inr r)"
  shows "sorted (map final_octet r)"
  using scanSubnet_Inr[OF assms] by blast

theorem scan_sorted_by_final_octet_witness:
  "scanSubnet small_world lan30
     (Inr [\<lparr>Device.IP = [192, 168, 1, 5], Online = True, Hostname = []\<rparr>,
           \<lparr>Device.IP = [192, 168, 1, 6], Online = True, Hostname = ''printer.lan''\<rparr>]) \<and>
   sorted (map final_octet
     [\<lparr>Device.IP = [192, 168, 1, 5], Online = True, Hostname = []\<rparr>,
      \<lparr>Device.IP = [192, 168, 1, 6], Online = True, Hostname = ''printer.lan''\<rparr>])"
  using scan_sorted_by_final_octet[of small_world lan30] scanSubnet_small by blast

text \<open>
  Claim C7. The enumeration is to produce no address twice. For every mask but 0.0.0.0
  it returns a list without repetition, no number of iterations hands an address to a
  goroutine twice, and the devices of a returned slice have different addresses. With
  the mask 0.0.0.0 the loop does not end: after \<open>2 ^ 32\<close> iterations it is back at
  0.0.0.0, and among the addresses handed to goroutines in the first \<open>2 ^ 32 + 2\<close>
  iterations 0.0.0.1 occurs twice.
\<close>

theorem no_address_twice:
  assumes "ipv4_net n"
  shows "(Mask n \<noteq> [0, 0, 0, 0] \<longrightarrow>
            (\<exists>cs. candidates n = Some (Inr cs) \<and> distinct cs) \<and>
            (\<forall>k. distinct (launched_after k n))) \<and>
         (\<forall>w r. scanSubnet w n (Inr r) \<longrightarrow> distinct (map Device.IP r)) \<and>
         (Mask n = [0, 0, 0, 0] \<longrightarrow> \<not> distinct (launched_after (2 ^ 32 + 2) n))"
proof (intro conjI allI impI)
  assume nz: "Mask n \<noteq> [0, 0, 0, 0]"
  then obtain cs where cs: "candidates n = Some (Inr cs)"
    using candidates_shape[OF assms] by blast
  then have "distinct cs" using assms by (intro candidates_distinct)
  then show "\<exists>cs. candidates n = Some (Inr cs) \<and> distinct cs" using cs by blast
next
  fix k assume "Mask n \<noteq> [0, 0, 0, 0]"
  then show "distinct (launched_after k n)" using assms by (intro launched_after_distinct)
next
  fix w r assume "scanSubnet w n (Inr r)"
  then obtain ts where ts: "candidates n = Some (Inr ts)" "mset r = mset (appended w ts)"
    using scanSubnet_Inr by blast
  have "distinct ts" using assms ts(1) by (rule candidates_distinct)
  then have "distinct (map Device.IP (appended w ts))" by (simp add: appended_IP)
  moreover have "mset (map Device.IP r) = mset (map Device.IP (appended w ts))"
    using ts(2) by simp
  ultimately show "distinct (map Device.IP r)" by (metis mset_eq_imp_distinct_iff)
next
  assume "Mask n = [0, 0, 0, 0]"
  then show "\<not> distinct (launched_after (2 ^ 32 + 2) n)"
    using assms by (intro launched_after_repeats)
qed

theorem no_address_twice_witness:
  "ipv4_net net0 \<and> Mask net0 = [0, 0, 0, 0] \<and>
   \<not> distinct (launched_after (2 ^ 32 + 2) net0) \<and>
   ipv4_net lan30 \<and> Mask lan30 \<noteq> [0, 0, 0, 0] \<and>
   candidates lan30 =
     Some (Inr [[192, 168, 1, 4], [192, 168, 1, 5], [192, 168, 1, 6], [192, 168, 1, 7]]) \<and>
   distinct (launched_after 3 lan30) \<and>
   scanSubnet small_world lan30
     (Inr [\<lparr>Device.IP = [192, 168, 1, 5], Online = True, Hostname = []\<rparr>,
           \<lparr>Device.IP = [192, 168, 1, 6], Online = True, Hostname = ''printer.lan''\<rparr>]) \<and>
   distinct (map Device.IP
     [\<lparr>Device.IP = [192, 168, 1, 5], Online = True, Hostname = []\<rparr>,
      \<lparr>Device.IP = [192, 168, 1, 6], Online = True, Hostname = ''printer.lan''\<rparr>])"
proof -
  have z: "Mask net0 = [0, 0, 0, 0]" by (simp add: net0_def)
  have nz: "Mask lan30 \<noteq> [0, 0, 0, 0]" by (simp add: lan30_def)
  show ?thesis
    using no_address_twice[OF ipv4_net0] no_address_twice[OF ipv4_lan30]
      ipv4_net0 ipv4_lan30 z nz candidates_lan30 scanSubnet_small
    by simp
qed

text \<open>
  Claim C8. For a well-formed IPv4 network the enumeration terminates. The loop stops
  only at an address outside the network, and with the mask 0.0.0.0 no address is
  outside: \<open>incrementIP\<close> wraps from 255.255.255.255 to 0.0.0.0, after \<open>2 ^ 32\<close> steps the
  loop is back at the address it started from (\<open>incrementIP_cycle\<close>), and it goes on. So
  the enumeration returns for every mask but that one, and for that one it never does.
\<close>

theorem candidates_diverges_iff:
  assumes "ipv4_net n"
  shows "(candidates n = None) = (Mask n = [0, 0, 0, 0])"
proof
  assume "candidates n = None"
  then show "Mask n = [0, 0, 0, 0]"
    using candidates_shape[OF assms] by (cases "Mask n = [0, 0, 0, 0]") auto
next
  assume z: "Mask n = [0, 0, 0, 0]"
  from assms obtain p where p: "To4 (IPNet.IP n) = Some p"
    by (auto simp: ipv4_net_def)
  have m: "length (Mask n) = 4" by (simp add: z)
  note na = network_address_ipv4[OF p m]
  have "candidates n = scanSubnet_loop n (network_address n) []"
    by (simp add: candidates_def Let_def na(3) network_address_def[symmetric])
  then show "candidates n = None"
    using scanSubnet_loop_zero_mask[OF p z na(2)] by simp
qed

theorem candidates_diverges_iff_witness:
  "ipv4_net net0 \<and> Mask net0 = [0, 0, 0, 0] \<and> candidates net0 = None"
  using candidates_diverges_iff[OF ipv4_net0] ipv4_net0 by (simp add: net0_def)

text \<open>
  Claim C9. Two sweeps over the same network in the same world return the same
  devices: the same set of pairs of address and hostname (even the same multiset of
  devices), and the same sequence when the final octets of the devices are all
  different. In 10.0.0.0/23 the devices 10.0.0.5 and 10.0.1.5 share the final octet, and
  both orders are results of a sweep.
\<close>

theorem sweeps_agree:
  assumes "scanSubnet w n (Inr r1)" "scanSubnet w n (Inr r2)"
  shows "set (map (\<lambda>d. (Device.IP d, Hostname d)) r1) =
           set (map (\<lambda>d. (Device.IP d, Hostname d)) r2) \<and>
         mset r1 = mset r2 \<and>
         (distinct (map final_octet r1) \<longrightarrow> r1 = r2)"
proof -
  from scanSubnet_Inr[OF assms(1)] scanSubnet_Inr[OF assms(2)]
  have m: "mset r1 = mset r2" and s: "sorted (map final_octet r1)" "sorted (map final_octet r2)"
    by auto
  have "set r1 = set r2" using m by (rule mset_eq_setD)
  then have "set (map (\<lambda>d. (Device.IP d, Hostname d)) r1) =
      set (map (\<lambda>d. (Device.IP d, Hostname d)) r2)" by simp
  moreover have "r1 = r2" if "distinct (map final_octet r1)"
    using m s that by (rule sorted_perm_unique)
  ultimately show ?thesis using m by blast
qed

theorem sweeps_agree_witness:
  "scanSubnet twin_world lan23
     (Inr [\<lparr>Device.IP = [10, 0, 0, 5], Online = True, Hostname = []\<rparr>,
           \<lparr>Device.IP = [10, 0, 1, 5], Online = True, Hostname = []\<rparr>]) \<and>
   scanSubnet twin_world lan23
     (Inr [\<lparr>Device.IP = [10, 0, 1, 5], Online = True, Hostname = []\<rparr>,
           \<lparr>Device.IP = [10, 0, 0, 5], Online = True, Hostname = []\<rparr>]) \<and>
   mset [\<lparr>Device.IP = [10, 0, 0, 5], Online = True, Hostname = []\<rparr>,
         \<lparr>Device.IP = [10, 0, 1, 5], Online = True, Hostname = []\<rparr>] =
   mset [\<lparr>Device.IP = [10, 0, 1, 5], Online = True, Hostname = []\<rparr>,
         \<lparr>Device.IP = [10, 0, 0, 5], Online = True, Hostname = []\<rparr>] \<and>
   \<not> distinct (map final_octet
         [\<lparr>Device.IP = [10, 0, 0, 5], Online = True, Hostname = []\<rparr>,
          \<lparr>Device.IP = [10, 0, 1, 5], Online = True, Hostname = []\<rparr>])"
  using sweeps_agree[OF scanSubnet_twin(1) scanSubnet_twin(2)] scanSubnet_twin
  by (simp add: final_octet_def)

text \<open>
  Claim C10. Every device of a returned slice has \<open>Online\<close> true and carries a
  candidate address for which \<open>pingHost\<close> returned true. When \<open>pingHost\<close> returns false
  for every candidate, every call of \<open>scanSubnet\<close> returns the empty slice, for every
  mask but 0.0.0.0; with the mask 0.0.0.0 the loop does not end, and \<open>scanSubnet\<close> does
  not return at all.
\<close>

theorem only_reachable_devices:
  assumes "ipv4_net n"
  shows "(\<forall>r d. scanSubnet w n (Inr r) \<longrightarrow> d \<in> set r \<longrightarrow>
            Online d \<and> pingHost w (IP_String (Device.IP d)) = Inr True \<and>
            (\<exists>ts. candidates n = Some (Inr ts) \<and> Device.IP d \<in> set ts)) \<and>
         (Mask n \<noteq> [0, 0, 0, 0] \<longrightarrow>
            (\<exists>ts. candidates n = Some (Inr ts) \<and>
               ((\<forall>t \<in> set ts. pingHost w (IP_String t) = Inr False) \<longrightarrow>
                  (\<forall>res. scanSubnet w n res = (res = Inr []))))) \<and>
         (Mask n = [0, 0, 0, 0] \<longrightarrow>
            (\<forall>k. \<forall>t \<in> set (launched_after k n). pingHost w (IP_String t) = Inr False) \<longrightarrow>
            (\<forall>res. \<not> scanSubnet w n res))"
proof (intro conjI allI impI)
  fix r d assume a: "scanSubnet w n (Inr r)" "d \<in> set r"
  from scanSubnet_Inr[OF a(1)] obtain ts where ts: "candidates n = Some (Inr ts)"
    "mset r = mset (appended w ts)" by auto
  then have "d \<in> set (appended w ts)" using a(2) by (metis mset_eq_setD)
  then obtain t where t: "t \<in> set ts" "goroutine w t = Inr (Some d)"
    using appended_set by blast
  show "Online d" using goroutine_Some(2)[OF t(2)] .
  show "pingHost w (IP_String (Device.IP d)) = Inr True"
    using goroutine_Some(1,3)[OF t(2)] by simp
  show "\<exists>ts. candidates n = Some (Inr ts) \<and> Device.IP d \<in> set ts"
    using goroutine_Some(1)[OF t(2)] t(1) ts(1) by auto
next
  assume "Mask n \<noteq> [0, 0, 0, 0]"
  then obtain ts where c: "candidates n = Some (Inr ts)"
    using candidates_shape[OF assms] by blast
  have "scanSubnet w n res = (res = Inr [])"
    if off: "\<forall>t \<in> set ts. pingHost w (IP_String t) = Inr False" for res
  proof -
    have g: "goroutine w t = Inr None" if "t \<in> set ts" for t
      using off that by (simp add: goroutine_offline)
    have e: "appended w ts = []" using g by (induction ts) simp_all
    have run: "run_goroutines w ts [] (Inr ([] @ appended w ts))"
      by (rule run_goroutines_in_order) (simp add: g)
    show ?thesis
    proof
      assume "res = Inr []"
      then show "scanSubnet w n res"
        using scanSubnet.returns[OF c, of w "[]" "[]"] run e by (simp add: sort_Slice_def)
    next
      assume "scanSubnet w n res"
      then show "res = Inr []"
      proof (cases rule: scanSubnet.cases)
        case (loop_panic p)
        then show ?thesis using c by simp
      next
        case (goroutine_panic targets p)
        then show ?thesis using c run_goroutines_Inl[OF goroutine_panic(3) refl] g by auto
      next
        case (sort_panic targets devices)
        then have "mset devices = mset (appended w ts)"
          using c run_goroutines_Inr[OF sort_panic(3) refl] by auto
        then show ?thesis using sort_panic(4) e by simp
      next
        case (returns targets devices result)
        then have "mset devices = mset (appended w ts)"
          using c run_goroutines_Inr[OF returns(3) refl] by auto
        then show ?thesis using returns(1,5) e by (simp add: sort_Slice_def)
      qed
    qed
  qed
  then show "\<exists>ts. candidates n = Some (Inr ts) \<and>
      ((\<forall>t \<in> set ts. pingHost w (IP_String t) = Inr False) \<longrightarrow>
         (\<forall>res. scanSubnet w n res = (res = Inr [])))"
    using c by blast
next
  fix res assume "Mask n = [0, 0, 0, 0]"
  then have "candidates n = None" using assms by (intro candidates_zero_mask)
  then show "\<not> scanSubnet w n res" using scanSubnet_needs_candidates by blast
qed

theorem only_reachable_devices_witness:
  "ipv4_net net0 \<and> Mask net0 = [0, 0, 0, 0] \<and>
   pingHost quiet_world (IP_String [0, 0, 0, 1]) = Inr False \<and>
   \<not> scanSubnet quiet_world net0 (Inr []) \<and>
   ipv4_net lan30 \<and> Mask lan30 \<noteq> [0, 0, 0, 0] \<and>
   candidates lan30 =
     Some (Inr [[192, 168, 1, 4], [192, 168, 1, 5], [192, 168, 1, 6], [192, 168, 1, 7]]) \<and>
   pingHost quiet_world (IP_String [192, 168, 1, 4]) = Inr False \<and>
   pingHost quiet_world (IP_String [192, 168, 1, 5]) = Inr False \<and>
   pingHost quiet_world (IP_String [192, 168, 1, 6]) = Inr False \<and>
   pingHost quiet_world (IP_String [192, 168, 1, 7]) = Inr False \<and>
   scanSubnet quiet_world lan30 (Inr []) \<and>
   \<not> scanSubnet quiet_world lan30 (Inl NilPointerDereference) \<and>
   scanSubnet small_world lan30
     (Inr [\<lparr>Device.IP = [192, 168, 1, 5], Online = True, Hostname = []\<rparr>,
           \<lparr>Device.IP = [192, 168, 1, 6], Online = True, Hostname = ''printer.lan''\<rparr>]) \<and>
   pingHost small_world (IP_String [192, 168, 1, 6]) = Inr True"
proof -
  have z: "Mask net0 = [0, 0, 0, 0]" by (simp add: net0_def)
  have nz: "Mask lan30 \<noteq> [0, 0, 0, 0]" by (simp add: lan30_def)
  have "\<not> scanSubnet quiet_world net0 res" for res
    using only_reachable_devices[OF ipv4_net0, of quiet_world] z pingHost_quiet by blast
  moreover have "scanSubnet quiet_world lan30 res = (res = Inr [])" for res
    using only_reachable_devices[OF ipv4_lan30, of quiet_world] nz pingHost_quiet by blast
  moreover have "pingHost small_world (IP_String [192, 168, 1, 6]) = Inr True"
    using only_reachable_devices[OF ipv4_lan30, of small_world] scanSubnet_small by simp
  ultimately show ?thesis
    using candidates_lan30 pingHost_quiet scanSubnet_small ipv4_net0 ipv4_lan30 z nz by simp
qed

end
